theory Spec2Isabelle
  imports Complex_Main "HOL-Library.Log_Nat" "HOL-Library.Code_Target_Numeral"
begin

section \<open>Accounts: principals, tokens and responses (accounts/views.py)\<close>

text \<open>
  A row of Django's \<open>auth_user\<close> table, with the fields the views read or write.
  \<open>password\<close> holds the encoded hash, never the plaintext.
\<close>

record User =
  user_id :: nat
  username :: string
  password :: string
  is_staff :: bool
  is_active :: bool

text \<open>\<open>request.user\<close>: Django's \<open>AnonymousUser\<close> or an authenticated \<open>User\<close>.\<close>

datatype principal = AnonymousUser | Authenticated User

text \<open>
  A row of \<open>rest_framework.authtoken.models.Token\<close>: \<open>key\<close> is the primary key,
  \<open>user\<close> a one-to-one reference (so unique) to the user.
\<close>

record Token =
  key :: string
  token_user :: nat

record UserProfile =
  profile_id :: nat
  profile_user :: nat

record AccountDB =
  users :: "User list"
  tokens :: "Token list"
  profiles :: "UserProfile list"

text \<open>\<open>serializer.errors\<close>: field name to list of messages.\<close>

type_synonym errors = "(string \<times> string list) list"

datatype body =
    Message string
  | Error string
  | FieldErrors errors
  | AuthData User string string
  | Users "User list"
  | Profiles "UserProfile list"

datatype response = Response (status: nat) (data: body)

subsection \<open>Permission classes and per-action dispatch\<close>

datatype permission = AllowAny | IsAuthenticated | IsAdminUser

text \<open>
  \<open>BasePermission.has_permission\<close> of the three classes the views name:
  \<open>IsAuthenticated\<close> is \<open>bool(request.user and request.user.is_authenticated)\<close>,
  \<open>IsAdminUser\<close> is \<open>bool(request.user and request.user.is_staff)\<close>;
  \<open>AnonymousUser.is_staff\<close> is \<open>False\<close>.
\<close>

fun has_permission :: "permission \<Rightarrow> principal \<Rightarrow> bool" where
  "has_permission AllowAny _ = True"
| "has_permission IsAuthenticated AnonymousUser = False"
| "has_permission IsAuthenticated (Authenticated _) = True"
| "has_permission IsAdminUser AnonymousUser = False"
| "has_permission IsAdminUser (Authenticated u) = is_staff u"

datatype action =
    ActList | ActCreate | ActRetrieve | ActUpdate | ActPartialUpdate | ActDestroy
  | ActMe | ActChangePassword | ActLogout | ActDeactivate | ActActivate | ActMyProfile

text \<open>\<open>UserViewSet.get_permissions\<close> (views.py, lines 102 to 114).\<close>

definition UserViewSet_get_permissions :: "action \<Rightarrow> permission list" where
  "UserViewSet_get_permissions a =
     (if a \<in> set [ActCreate, ActList] then [IsAdminUser]
      else if a \<in> set [ActRetrieve, ActUpdate, ActPartialUpdate] then [IsAuthenticated]
      else if a = ActDestroy then [IsAdminUser]
      else [IsAuthenticated])"

text \<open>\<open>UserProfileViewSet.get_permissions\<close> (views.py, lines 213 to 223).\<close>

definition UserProfileViewSet_get_permissions :: "action \<Rightarrow> permission list" where
  "UserProfileViewSet_get_permissions a =
     (if a \<in> set [ActList, ActDestroy] then [IsAdminUser]
      else if a \<in> set [ActRetrieve, ActUpdate, ActPartialUpdate, ActCreate] then [IsAuthenticated]
      else [IsAuthenticated])"

text \<open>
  \<open>APIView.check_permissions\<close>, run by the framework before the handler of an action:
  the first permission that refuses raises \<open>NotAuthenticated\<close> (401) for a request
  that carried no valid credentials and \<open>PermissionDenied\<close> (403) for an
  authenticated caller.
\<close>

datatype api_error = NotAuthenticated | PermissionDenied

definition check_permissions :: "permission list \<Rightarrow> principal \<Rightarrow> api_error option" where
  "check_permissions ps who =
     (if \<forall>p \<in> set ps. has_permission p who then None
      else (case who of AnonymousUser \<Rightarrow> Some NotAuthenticated
                      | Authenticated _ \<Rightarrow> Some PermissionDenied))"

subsection \<open>Scoped querysets and the list action\<close>

text \<open>\<open>UserViewSet.get_queryset\<close> (views.py, lines 93 to 100).\<close>

fun UserViewSet_get_queryset :: "principal \<Rightarrow> AccountDB \<Rightarrow> User list" where
  "UserViewSet_get_queryset (Authenticated u) db =
     (if is_staff u then users db
      else filter (\<lambda>r. user_id r = user_id u) (users db))"
| "UserViewSet_get_queryset AnonymousUser db = []"

text \<open>\<open>UserProfileViewSet.get_queryset\<close> (views.py, lines 204 to 211).\<close>

fun UserProfileViewSet_get_queryset :: "principal \<Rightarrow> AccountDB \<Rightarrow> UserProfile list" where
  "UserProfileViewSet_get_queryset (Authenticated u) db =
     (if is_staff u then profiles db
      else filter (\<lambda>r. profile_user r = user_id u) (profiles db))"
| "UserProfileViewSet_get_queryset AnonymousUser db = []"

text \<open>
  The \<open>list\<close> action of a \<open>ModelViewSet\<close>: the framework checks the permissions that
  \<open>get_permissions\<close> returns for the action, then serialises \<open>get_queryset()\<close>.
\<close>

definition UserViewSet_list :: "principal \<Rightarrow> AccountDB \<Rightarrow> api_error + User list" where
  "UserViewSet_list who db =
     (case check_permissions (UserViewSet_get_permissions ActList) who of
        Some e \<Rightarrow> Inl e
      | None \<Rightarrow> Inr (UserViewSet_get_queryset who db))"

definition UserProfileViewSet_list :: "principal \<Rightarrow> AccountDB \<Rightarrow> api_error + UserProfile list" where
  "UserProfileViewSet_list who db =
     (case check_permissions (UserProfileViewSet_get_permissions ActList) who of
        Some e \<Rightarrow> Inl e
      | None \<Rightarrow> Inr (UserProfileViewSet_get_queryset who db))"

subsection \<open>Token issuance: \<open>Token.objects.get_or_create(user=user)\<close>\<close>

datatype db_error = IntegrityError




subsection \<open>Logout\<close>

text \<open>
  \<open>request.user.auth_token\<close>: the reverse accessor of the one-to-one field. It raises
  \<open>RelatedObjectDoesNotExist\<close> when the user has no token, and \<open>AnonymousUser\<close> has
  no such attribute; the exception's text is the \<open>Inl\<close> value.
\<close>

fun auth_token :: "principal \<Rightarrow> Token list \<Rightarrow> string + Token" where
  "auth_token AnonymousUser ts = Inl ''AnonymousUser object has no attribute auth_token''"
| "auth_token (Authenticated u) ts =
     (case find (\<lambda>t. token_user t = user_id u) ts of
        None \<Rightarrow> Inl ''User has no auth_token.''
      | Some t \<Rightarrow> Inr t)"

text \<open>\<open>Model.delete\<close> of a token: the row with its primary key goes.\<close>

definition delete_token :: "Token \<Rightarrow> Token list \<Rightarrow> Token list" where
  "delete_token t ts = filter (\<lambda>r. key r \<noteq> key t) ts"

text \<open>The framework's answer to a refused permission check.\<close>

fun denied :: "api_error \<Rightarrow> response" where
  "denied NotAuthenticated = Response 401 (Error ''Authentication credentials were not provided.'')"
| "denied PermissionDenied = Response 403 (Error ''You do not have permission to perform this action.'')"

text \<open>\<open>UserViewSet.logout\<close> (views.py, lines 148 to 163), behind its permission check.\<close>

definition logout :: "principal \<Rightarrow> AccountDB \<Rightarrow> response \<times> AccountDB" where
  "logout who db =
     (case check_permissions (UserViewSet_get_permissions ActLogout) who of
        Some e \<Rightarrow> (denied e, db)
      | None \<Rightarrow>
          (case auth_token who (tokens db) of
             Inr t \<Rightarrow> (Response 200 (Message ''Logged out successfully''),
                       db\<lparr>tokens := delete_token t (tokens db)\<rparr>)
           | Inl e \<Rightarrow> (Response 400 (Error e), db)))"

text \<open>\<open>logout_view\<close> (views.py, lines 253 to 270): open to any caller.\<close>

definition logout_view :: "principal \<Rightarrow> AccountDB \<Rightarrow> response \<times> AccountDB" where
  "logout_view who db =
     (case auth_token who (tokens db) of
        Inr t \<Rightarrow> (Response 200 (Message ''Logged out successfully''),
                  db\<lparr>tokens := delete_token t (tokens db)\<rparr>)
      | Inl e \<Rightarrow> (Response 400 (Error ''Logout failed''), db))"

subsection \<open>Change password\<close>

text \<open>
  Django's password hashing is the pair of parameters \<open>make_password\<close> (salt and
  plaintext to the encoded hash; the salt is drawn at random by \<open>set_password\<close>) and
  \<open>check_password\<close> (plaintext against an encoded hash).
\<close>

text \<open>\<open>user.save()\<close>: the row with the user's primary key is rewritten, or inserted.\<close>

definition save_user :: "User \<Rightarrow> User list \<Rightarrow> User list" where
  "save_user u us =
     (if user_id u \<in> set (map user_id us)
      then map (\<lambda>r. if user_id r = user_id u then u else r) us
      else us @ [u])"

text \<open>
  \<open>UserViewSet.change_password\<close> (views.py, lines 124 to 146), behind its permission
  check. \<open>ChangePasswordSerializer\<close> is not part of the sources at hand: its validation
  is the parameter \<open>validate\<close>, which yields the field errors or the validated pair
  \<open>(old_password, new_password)\<close>. It is built from the request data alone, so it
  cannot read the caller's stored hash.
\<close>

definition change_password ::
  "('d \<Rightarrow> errors + (string \<times> string)) \<Rightarrow> (string \<Rightarrow> string \<Rightarrow> string) \<Rightarrow> (string \<Rightarrow> string \<Rightarrow> bool)
     \<Rightarrow> string \<Rightarrow> principal \<Rightarrow> 'd \<Rightarrow> AccountDB \<Rightarrow> response \<times> AccountDB" where
  "change_password validate make_password check_password salt who request_data db =
     (case check_permissions (UserViewSet_get_permissions ActChangePassword) who of
        Some e \<Rightarrow> (denied e, db)
      | None \<Rightarrow>
          (case who of
             AnonymousUser \<Rightarrow> (denied NotAuthenticated, db)
           | Authenticated user \<Rightarrow>
               (case validate request_data of
                  Inr (old_password, new_password) \<Rightarrow>
                    if check_password old_password (password user)
                    then (Response 200 (Message ''Password changed successfully''),
                          db\<lparr>users := save_user (user\<lparr>password := make_password salt new_password\<rparr>)
                                              (users db)\<rparr>)
                    else (Response 400 (FieldErrors [(''old_password'', [''Wrong password.''])]), db)
                | Inl errs \<Rightarrow> (Response 400 (FieldErrors errs), db))))"

text \<open>The hash the store holds for a user, if the user is stored.\<close>

definition stored_hash :: "nat \<Rightarrow> AccountDB \<Rightarrow> string option" where
  "stored_hash uid db = map_option password (find (\<lambda>r. user_id r = uid) (users db))"

text \<open>The token the store holds for a user, if any.\<close>

definition token_of :: "nat \<Rightarrow> AccountDB \<Rightarrow> Token option" where
  "token_of uid db = find (\<lambda>t. token_user t = uid) (tokens db)"

subsection \<open>The serializers of accounts/serializers.py\<close>

text \<open>\<open>request.data\<close>: the fields of the request body.\<close>

type_synonym request_data = "(string \<times> string) list"

text \<open>
  \<open>AUTH_PASSWORD_VALIDATORS\<close> (settings.py, lines 120 to 137): minimum length 8, not a
  common password, not entirely numeric. The list of common passwords is Django's data
  file, the parameter \<open>common\<close>. The similarity validator compares the password with
  the fields of a user object; it is given none here and then accepts.
\<close>

definition validate_password :: "string list \<Rightarrow> string \<Rightarrow> string list" where
  "validate_password common pw =
     (if length pw < 8 then [''This password is too short.''] else [])
     @ (if pw \<in> set common then [''This password is too common.''] else [])
     @ (if pw \<noteq> [] \<and> list_all (\<lambda>c. c \<in> set ''0123456789'') pw
        then [''This password is entirely numeric.''] else [])"

text \<open>
  Modelled from the spec: \<open>ChangePasswordSerializer\<close> of accounts/serializers.py, which
  is not among the sources. The request carries the current and the new credential, and
  "the new credential passes the same strength validation as registration".
\<close>

definition ChangePasswordSerializer :: "string list \<Rightarrow> request_data \<Rightarrow> errors + (string \<times> string)" where
  "ChangePasswordSerializer common request_data =
     (case (map_of request_data ''old_password'', map_of request_data ''new_password'') of
        (Some old_password, Some new_password) \<Rightarrow>
          (case validate_password common new_password of
             [] \<Rightarrow> Inr (old_password, new_password)
           | msgs \<Rightarrow> Inl [(''new_password'', msgs)])
      | (None, _) \<Rightarrow> Inl [(''old_password'', [''This field is required.''])]
      | (_, None) \<Rightarrow> Inl [(''new_password'', [''This field is required.''])])"


text \<open>
  Modelled from the spec: \<open>UserRegistrationSerializer\<close> of accounts/serializers.py,
  which is not among the sources. Registration "validates uniqueness of the login
  identifier plus credential strength" and "creates the principal with the credential
  stored only in hashed form"; the new row gets the next key of the user table.
\<close>

definition UserRegistrationSerializer ::
  "string list \<Rightarrow> (string \<Rightarrow> string \<Rightarrow> string) \<Rightarrow> string \<Rightarrow> request_data \<Rightarrow> User list
     \<Rightarrow> errors + (User \<times> User list)" where
  "UserRegistrationSerializer common make_password salt request_data us =
     (case (map_of request_data ''username'', map_of request_data ''password'') of
        (Some n, Some pw) \<Rightarrow>
          if n \<in> set (map username us)
          then Inl [(''username'', [''A user with that username already exists.''])]
          else (case validate_password common pw of
                  [] \<Rightarrow>
                    (let u = \<lparr>user_id = Suc (fold max (map user_id us) 0), username = n,
                              password = make_password salt pw, is_staff = False,
                              is_active = True\<rparr>
                     in Inr (u, us @ [u]))
                | msgs \<Rightarrow> Inl [(''password'', msgs)])
      | (None, _) \<Rightarrow> Inl [(''username'', [''This field is required.''])]
      | (_, None) \<Rightarrow> Inl [(''password'', [''This field is required.''])])"

section \<open>Catalog: tables, constraints and \<open>Model.save\<close> (products/models.py)\<close>

text \<open>
  A table is the list of its rows, each under its primary key. \<open>Model.save\<close> of an
  instance whose \<open>pk\<close> is set rewrites the row with that key, or inserts it when no
  row has the key; an instance without \<open>pk\<close> is inserted under the next key of the
  table. The statement is refused with \<open>IntegrityError\<close>, and changes nothing, when
  the table it would leave breaks a declared constraint (the parameter \<open>ok\<close>).
  A table of the store satisfies its constraints at every moment, so checking the
  table that results is checking the rows the statement wrote.
\<close>

type_synonym 'a table = "(nat \<times> 'a) list"

definition next_pk :: "'a table \<Rightarrow> nat" where
  "next_pk t = Suc (fold max (map fst t) 0)"

definition write_row :: "nat \<Rightarrow> 'a \<Rightarrow> 'a table \<Rightarrow> 'a table" where
  "write_row k row t =
     (if k \<in> set (map fst t) then map (\<lambda>(j, r). if j = k then (j, row) else (j, r)) t
      else t @ [(k, row)])"

definition Model_save ::
  "('a table \<Rightarrow> bool) \<Rightarrow> nat option \<Rightarrow> 'a \<Rightarrow> 'a table \<Rightarrow> (db_error + nat) \<times> 'a table" where
  "Model_save ok self_pk self t =
     (let k = (case self_pk of Some k \<Rightarrow> k | None \<Rightarrow> next_pk t);
          t' = write_row k self t
      in if ok t' then (Inr k, t') else (Inl IntegrityError, t))"

subsection \<open>Product: pricing\<close>

text \<open>
  \<open>price\<close> and \<open>discount_price\<close> are \<open>DecimalField\<close>s (Python \<open>Decimal\<close>), the
  second nullable; \<open>stock\<close> is an \<open>IntegerField\<close>.
\<close>

record Product =
  price :: rat
  discount_price :: "rat option"
  stock :: int

datatype py_error = DivisionByZero | InvalidOperation | TypeError

text \<open>
  A \<open>Decimal\<close> is the number it denotes, a rational. Arithmetic on \<open>Decimal\<close>s runs
  under Python's default context: every result is rounded to 28 significant digits,
  \<open>ROUND_HALF_EVEN\<close>. (The context's exponent limits are far outside the values a
  price field holds and are left out.)
\<close>

text \<open>Rounding to the nearest integer, a tie going to the even neighbour.\<close>

definition round_half_even :: "rat \<Rightarrow> int" where
  "round_half_even x =
     (let f = \<lfloor>x\<rfloor>; r = x - of_int f
      in if r < 1 / 2 then f
         else if 1 / 2 < r then f + 1
         else if even f then f else f + 1)"

text \<open>
  The exponent of the leading digit of a non-zero number (\<open>Decimal.adjusted()\<close>):
  the \<open>e\<close> with \<open>10 ^ e \<le> |x| < 10 ^ (e + 1)\<close>, found from the digit counts of
  numerator and denominator.
\<close>

definition adjusted :: "rat \<Rightarrow> int" where
  "adjusted x =
     (case quotient_of \<bar>x\<bar> of (a, b) \<Rightarrow>
        let e = int (floorlog 10 (nat a)) - int (floorlog 10 (nat b))
        in if 10 powi e \<le> \<bar>x\<bar> then e else e - 1)"

text \<open>Rounding to the context's precision: 28 significant digits.\<close>

definition context_round :: "rat \<Rightarrow> rat" where
  "context_round x =
     (if x = 0 then 0
      else let q = 10 powi (adjusted x - 27)
           in of_int (round_half_even (x / q)) * q)"

text \<open>\<open>Decimal.__sub__\<close> and \<open>Decimal.__mul__\<close>: the exact result, rounded.\<close>

definition decimal_sub :: "rat \<Rightarrow> rat \<Rightarrow> rat" where
  "decimal_sub a b = context_round (a - b)"

definition decimal_mul :: "rat \<Rightarrow> rat \<Rightarrow> rat" where
  "decimal_mul a b = context_round (a * b)"

text \<open>
  \<open>Decimal.__truediv__\<close>: a zero divisor signals \<open>DivisionByZero\<close>, or
  \<open>InvalidOperation\<close> for \<open>0 / 0\<close>; both are raised under the default context.
\<close>

definition decimal_div :: "rat \<Rightarrow> rat \<Rightarrow> py_error + rat" where
  "decimal_div a b =
     (if b = 0 then Inl (if a = 0 then InvalidOperation else DivisionByZero)
      else Inr (context_round (a / b)))"

text \<open>
  \<open>round(d, 2)\<close> of a \<open>Decimal\<close>: \<open>quantize\<close> to two places, \<open>ROUND_HALF_EVEN\<close>;
  \<open>InvalidOperation\<close> when the result needs more digits than the context has.
\<close>

definition decimal_round2 :: "rat \<Rightarrow> py_error + rat" where
  "decimal_round2 x =
     (let n = round_half_even (x * 100)
      in if 10 ^ 28 \<le> \<bar>n\<bar> then Inl InvalidOperation else Inr (of_int n / 100))"

text \<open>\<open>Product.has_discount\<close> (models.py, lines 142 to 145).\<close>

definition has_discount :: "Product \<Rightarrow> bool" where
  "has_discount self =
     (case discount_price self of None \<Rightarrow> False | Some d \<Rightarrow> d < price self)"

text \<open>\<open>Product.discount_percentage\<close> (models.py, lines 147 to 153).\<close>

definition discount_percentage :: "Product \<Rightarrow> py_error + rat" where
  "discount_percentage self =
     (if has_discount self then
        (case discount_price self of
           None \<Rightarrow> Inl TypeError
         | Some d \<Rightarrow>
             (case decimal_div (decimal_sub (price self) d) (price self) of
                Inl e \<Rightarrow> Inl e
              | Inr q \<Rightarrow> decimal_round2 (decimal_mul q 100)))
      else Inr 0)"

text \<open>
  The field validators (\<open>MinValueValidator(0)\<close> on both prices): what a product that
  went through validation satisfies.
\<close>

definition validated :: "Product \<Rightarrow> bool" where
  "validated self =
     (0 \<le> price self \<and> (case discount_price self of None \<Rightarrow> True | Some d \<Rightarrow> 0 \<le> d))"

text \<open>
  What a \<open>DecimalField(max_digits=10, decimal_places=2)\<close> holds: a number of cents
  with at most ten digits.
\<close>

definition in_field :: "rat \<Rightarrow> bool" where
  "in_field x = (of_int \<lfloor>x * 100\<rfloor> = x * 100 \<and> \<bar>x\<bar> < 10 ^ 8)"

text \<open>
  The percentage as the specification words it:
  \<open>round(100 * (price - discount_price) / price, 2)\<close>, in exact arithmetic.
\<close>

definition round2 :: "rat \<Rightarrow> rat" where
  "round2 x = of_int (round_half_even (x * 100)) / 100"

definition spec_discount_percentage :: "rat \<Rightarrow> rat \<Rightarrow> rat" where
  "spec_discount_percentage p d = round2 (100 * (p - d) / p)"

text \<open>
  The same expression as Python evaluates it on \<open>Decimal\<close>s, in the order it is
  written: the difference, its product with 100, the quotient by the price, each
  rounded by the context, and \<open>round(_, 2)\<close> of the outcome.
\<close>

definition spec_discount_percentage_decimal :: "rat \<Rightarrow> rat \<Rightarrow> py_error + rat" where
  "spec_discount_percentage_decimal p d =
     (case decimal_div (decimal_mul 100 (decimal_sub p d)) p of
        Inl e \<Rightarrow> Inl e
      | Inr q \<Rightarrow> decimal_round2 q)"

text \<open>
  A positive number that a \<open>Decimal\<close> of at most 28 digits holds exactly: the context
  rounds it to itself.
\<close>

definition representable :: "rat \<Rightarrow> bool" where
  "representable y = (\<exists>n e. 0 < n \<and> n < 10 ^ 28 \<and> y = of_int n * 10 powi e)"

subsection \<open>ProductImage\<close>

record ProductImage =
  product :: nat
  is_primary :: bool
  alt_text :: string

text \<open>\<open>Meta.unique_together = ('product', 'is_primary')\<close> (models.py, line 178).\<close>

definition unique_together :: "ProductImage table \<Rightarrow> bool" where
  "unique_together t = distinct (map (\<lambda>(k, r). (product r, is_primary r)) t)"

text \<open>
  \<open>ProductImage.objects.filter(product=p, is_primary=True).update(is_primary=False)\<close>:
  one statement, refused as a whole when it would break the constraint.
\<close>

definition demote_primaries :: "nat \<Rightarrow> ProductImage table \<Rightarrow> db_error + ProductImage table" where
  "demote_primaries p t =
     (let t' = map (\<lambda>(k, r). if product r = p \<and> is_primary r
                              then (k, r\<lparr>is_primary := False\<rparr>) else (k, r)) t
      in if unique_together t' then Inr t' else Inl IntegrityError)"

text \<open>
  \<open>ProductImage.save\<close> (models.py, lines 183 to 187). The two statements are not
  wrapped in a transaction: what the first wrote stays when the second is refused.
\<close>

definition ProductImage_save ::
  "nat option \<Rightarrow> ProductImage \<Rightarrow> ProductImage table \<Rightarrow> (db_error + nat) \<times> ProductImage table" where
  "ProductImage_save self_pk self t =
     (if is_primary self then
        (case demote_primaries (product self) t of
           Inl e \<Rightarrow> (Inl e, t)
         | Inr t1 \<Rightarrow> Model_save unique_together self_pk self t1)
      else Model_save unique_together self_pk self t)"

text \<open>A sequence of saves, each a request of its own: a refused save changes nothing.\<close>

fun run_saves :: "(nat option \<times> ProductImage) list \<Rightarrow> ProductImage table \<Rightarrow> ProductImage table" where
  "run_saves [] t = t"
| "run_saves ((self_pk, self) # rest) t = run_saves rest (snd (ProductImage_save self_pk self t))"

definition images_of :: "nat \<Rightarrow> ProductImage table \<Rightarrow> ProductImage table" where
  "images_of p t = filter (\<lambda>(k, r). product r = p) t"

definition primaries_of :: "nat \<Rightarrow> ProductImage table \<Rightarrow> ProductImage table" where
  "primaries_of p t = filter (\<lambda>(k, r). product r = p \<and> is_primary r) t"

definition non_primaries_of :: "nat \<Rightarrow> ProductImage table \<Rightarrow> ProductImage table" where
  "non_primaries_of p t = filter (\<lambda>(k, r). product r = p \<and> \<not> is_primary r) t"

subsection \<open>Category\<close>

record Category =
  name :: string
  slug :: string
  parent :: "nat option"

text \<open>
  The constraints the model declares: \<open>name\<close> and \<open>slug\<close> are unique, and \<open>parent\<close>
  is a foreign key to a row of the same table.
\<close>

definition category_constraints :: "Category table \<Rightarrow> bool" where
  "category_constraints t =
     (distinct (map (\<lambda>(k, r). name r) t) \<and> distinct (map (\<lambda>(k, r). slug r) t)
      \<and> (\<forall>(k, r) \<in> set t. case parent r of None \<Rightarrow> True | Some q \<Rightarrow> q \<in> set (map fst t)))"

text \<open>
  \<open>Category.save\<close> (models.py, lines 56 to 59). \<open>django.utils.text.slugify\<close> is
  library code: it is the parameter \<open>slugify\<close>.
\<close>

definition Category_save ::
  "(string \<Rightarrow> string) \<Rightarrow> nat option \<Rightarrow> Category \<Rightarrow> Category table \<Rightarrow> (db_error + nat) \<times> Category table" where
  "Category_save slugify self_pk self t =
     Model_save category_constraints self_pk
       (if slug self = [] then self\<lparr>slug := slugify (name self)\<rparr> else self) t"

text \<open>
  The ancestors of a category: its parent, the parent's parent, and so on, for at most
  \<open>n\<close> steps (a chain that has not ended after as many steps as the table has rows
  has run into a cycle).
\<close>

fun ancestors :: "nat \<Rightarrow> Category table \<Rightarrow> nat \<Rightarrow> nat list" where
  "ancestors 0 t k = []"
| "ancestors (Suc n) t k =
     (case map_of t k of
        None \<Rightarrow> []
      | Some r \<Rightarrow> (case parent r of None \<Rightarrow> [] | Some q \<Rightarrow> q # ancestors n t q))"

definition own_ancestor :: "Category table \<Rightarrow> nat \<Rightarrow> bool" where
  "own_ancestor t k = (k \<in> set (ancestors (length t) t k))"

section \<open>Sample data\<close>

text \<open>
  A stand-in for the password hasher in the examples: it keeps the two properties the
  views rely on (a hash verifies its own plaintext and no other).
\<close>

definition toy_make_password :: "string \<Rightarrow> string \<Rightarrow> string" where
  "toy_make_password salt pw = rev pw"

definition toy_check_password :: "string \<Rightarrow> string \<Rightarrow> bool" where
  "toy_check_password pw encoded = (encoded = rev pw)"

definition alice :: User where
  "alice = \<lparr>user_id = 1, username = ''alice'', password = toy_make_password ''s0'' ''Str0ngPass!'',
            is_staff = False, is_active = True\<rparr>"

definition root :: User where
  "root = \<lparr>user_id = 2, username = ''root'', password = toy_make_password ''s0'' ''Adm1nPass!'',
           is_staff = True, is_active = True\<rparr>"

definition shop_db :: AccountDB where
  "shop_db = \<lparr>users = [alice, root],
              tokens = [\<lparr>key = ''9944b091'', token_user = 1\<rparr>],
              profiles = [\<lparr>profile_id = 1, profile_user = 1\<rparr>, \<lparr>profile_id = 2, profile_user = 2\<rparr>]\<rparr>"

section \<open>Accounts: results\<close>

lemma distinct_map_eqD:
  "distinct (map f xs) \<Longrightarrow> x \<in> set xs \<Longrightarrow> y \<in> set xs \<Longrightarrow> f x = f y \<Longrightarrow> x = y"
  by (meson distinct_map inj_onD)

lemma find_SomeD: "find P xs = Some x \<Longrightarrow> P x \<and> x \<in> set xs"
  by (induction xs) (auto split: if_splits)

lemma find_append_new:
  "find P xs = None \<Longrightarrow> P x \<Longrightarrow> find P (xs @ [x]) = Some x"
  by (induction xs) (auto split: if_splits)









text \<open>
  C9. Logout deletes the caller's token when one exists: the token is gone from the
  store, and (the user reference of a token being unique) the caller has no token left.
  When the caller has no token, and for an anonymous caller, the response is an error
  and the store is unchanged.
\<close>

lemma token_of_delete_token:
  assumes "token_of uid db = Some t" and "distinct (map token_user (tokens db))"
  shows "token_of uid (db\<lparr>tokens := delete_token t (tokens db)\<rparr>) = None"
proof -
  from assms(1) have t: "token_user t = uid" "t \<in> set (tokens db)"
    using find_SomeD[of "\<lambda>t. token_user t = uid" "tokens db" t] by (simp_all add: token_of_def)
  have "\<And>r. r \<in> set (tokens db) \<Longrightarrow> token_user r = uid \<Longrightarrow> r = t"
    using distinct_map_eqD[OF assms(2)] t by blast
  then show ?thesis
    by (auto simp: token_of_def delete_token_def find_None_iff)
qed

lemma auth_token_Authenticated:
  "auth_token (Authenticated u) (tokens db) =
     (case token_of (user_id u) db of None \<Rightarrow> Inl ''User has no auth_token.'' | Some t \<Rightarrow> Inr t)"
  by (simp add: token_of_def)

lemma check_logout_Authenticated:
  "check_permissions (UserViewSet_get_permissions ActLogout) (Authenticated u) = None"
  by (simp add: check_permissions_def UserViewSet_get_permissions_def)

lemma check_logout_Anonymous:
  "check_permissions (UserViewSet_get_permissions ActLogout) AnonymousUser = Some NotAuthenticated"
  by (simp add: check_permissions_def UserViewSet_get_permissions_def)

theorem logout_deletes_token_or_signals_error:
  "(\<forall>t. token_of (user_id u) db = Some t \<longrightarrow>
       logout (Authenticated u) db =
         (Response 200 (Message ''Logged out successfully''), db\<lparr>tokens := delete_token t (tokens db)\<rparr>)
     \<and> logout_view (Authenticated u) db =
         (Response 200 (Message ''Logged out successfully''), db\<lparr>tokens := delete_token t (tokens db)\<rparr>)
     \<and> t \<notin> set (delete_token t (tokens db))
     \<and> (distinct (map token_user (tokens db)) \<longrightarrow>
          token_of (user_id u) (db\<lparr>tokens := delete_token t (tokens db)\<rparr>) = None))
   \<and> (token_of (user_id u) db = None \<longrightarrow>
       logout (Authenticated u) db = (Response 400 (Error ''User has no auth_token.''), db)
     \<and> logout_view (Authenticated u) db = (Response 400 (Error ''Logout failed''), db))
   \<and> logout AnonymousUser db = (Response 401 (Error ''Authentication credentials were not provided.''), db)
   \<and> logout_view AnonymousUser db = (Response 400 (Error ''Logout failed''), db)"
proof (intro conjI allI impI)
  fix t assume t: "token_of (user_id u) db = Some t"
  show "logout (Authenticated u) db =
         (Response 200 (Message ''Logged out successfully''), db\<lparr>tokens := delete_token t (tokens db)\<rparr>)"
    using t by (simp add: logout_def check_logout_Authenticated auth_token_Authenticated del: auth_token.simps)
  show "logout_view (Authenticated u) db =
         (Response 200 (Message ''Logged out successfully''), db\<lparr>tokens := delete_token t (tokens db)\<rparr>)"
    using t by (simp add: logout_view_def auth_token_Authenticated del: auth_token.simps)
  show "t \<notin> set (delete_token t (tokens db))"
    by (simp add: delete_token_def)
  show "token_of (user_id u) (db\<lparr>tokens := delete_token t (tokens db)\<rparr>) = None"
    if "distinct (map token_user (tokens db))"
    using token_of_delete_token[OF t that] .
next
  assume n: "token_of (user_id u) db = None"
  show "logout (Authenticated u) db = (Response 400 (Error ''User has no auth_token.''), db)"
    using n by (simp add: logout_def check_logout_Authenticated auth_token_Authenticated del: auth_token.simps)
  show "logout_view (Authenticated u) db = (Response 400 (Error ''Logout failed''), db)"
    using n by (simp add: logout_view_def auth_token_Authenticated del: auth_token.simps)
next
  show "logout AnonymousUser db = (Response 401 (Error ''Authentication credentials were not provided.''), db)"
    by (simp add: logout_def check_logout_Anonymous)
  show "logout_view AnonymousUser db = (Response 400 (Error ''Logout failed''), db)"
    by (simp add: logout_view_def)
qed

theorem logout_deletes_token_or_signals_error_witness:
  "logout (Authenticated alice) shop_db
     = (Response 200 (Message ''Logged out successfully''), shop_db\<lparr>tokens := []\<rparr>)
   \<and> token_of (user_id alice) (shop_db\<lparr>tokens := []\<rparr>) = None
   \<and> logout (Authenticated alice) (shop_db\<lparr>tokens := []\<rparr>)
     = (Response 400 (Error ''User has no auth_token.''), shop_db\<lparr>tokens := []\<rparr>)
   \<and> logout_view (Authenticated root) shop_db = (Response 400 (Error ''Logout failed''), shop_db)"
proof -
  let ?t = "\<lparr>key = ''9944b091'', token_user = 1\<rparr>"
  have t: "token_of (user_id alice) shop_db = Some ?t"
    by (simp add: token_of_def shop_db_def alice_def)
  have d: "distinct (map token_user (tokens shop_db))"
    by (simp add: shop_db_def)
  have e: "delete_token ?t (tokens shop_db) = []"
    by (simp add: delete_token_def shop_db_def)
  have n: "token_of (user_id alice) (shop_db\<lparr>tokens := []\<rparr>) = None"
    by (simp add: token_of_def)
  have r: "token_of (user_id root) shop_db = None"
    by (simp add: token_of_def shop_db_def root_def)
  from logout_deletes_token_or_signals_error[of alice shop_db] t d e
  have 1: "logout (Authenticated alice) shop_db
     = (Response 200 (Message ''Logged out successfully''), shop_db\<lparr>tokens := []\<rparr>)"
    by simp
  from logout_deletes_token_or_signals_error[of alice "shop_db\<lparr>tokens := []\<rparr>"] n
  have 2: "logout (Authenticated alice) (shop_db\<lparr>tokens := []\<rparr>)
     = (Response 400 (Error ''User has no auth_token.''), shop_db\<lparr>tokens := []\<rparr>)"
    by blast
  from logout_deletes_token_or_signals_error[of root shop_db] r
  have 3: "logout_view (Authenticated root) shop_db = (Response 400 (Error ''Logout failed''), shop_db)"
    by blast
  from 1 2 3 n show ?thesis by blast
qed

text \<open>
  C4 (as stated). A non-administrator's list is said to be narrowed rather than rejected.
  The list action of both viewsets asks for \<open>IsAdminUser\<close>: for the non-administrator
  \<open>alice\<close> both lists are refused.
\<close>

theorem list_not_rejected_counterexample:
  "\<not> is_staff alice
   \<and> UserViewSet_list (Authenticated alice) shop_db = Inl PermissionDenied
   \<and> UserProfileViewSet_list (Authenticated alice) shop_db = Inl PermissionDenied"
  by (simp add: alice_def UserViewSet_list_def UserProfileViewSet_list_def check_permissions_def
      UserViewSet_get_permissions_def UserProfileViewSet_get_permissions_def)

text \<open>
  C4 (amended). For a non-administrator principal the user-list and the profile-list
  operations are rejected with an authorization error; the queryset the viewset's other
  actions work on is narrowed to exactly that principal's own record or profile. An
  administrator's list returns all records.
\<close>

theorem list_admin_only_queryset_scoped:
  "(\<not> is_staff u \<longrightarrow>
       UserViewSet_list (Authenticated u) db = Inl PermissionDenied
     \<and> UserProfileViewSet_list (Authenticated u) db = Inl PermissionDenied
     \<and> UserViewSet_get_queryset (Authenticated u) db = filter (\<lambda>r. user_id r = user_id u) (users db)
     \<and> UserProfileViewSet_get_queryset (Authenticated u) db
         = filter (\<lambda>r. profile_user r = user_id u) (profiles db))
   \<and> (is_staff u \<longrightarrow>
       UserViewSet_list (Authenticated u) db = Inr (users db)
     \<and> UserProfileViewSet_list (Authenticated u) db = Inr (profiles db))"
  by (simp add: UserViewSet_list_def UserProfileViewSet_list_def check_permissions_def
      UserViewSet_get_permissions_def UserProfileViewSet_get_permissions_def)

theorem list_admin_only_queryset_scoped_witness:
  "UserViewSet_list (Authenticated alice) shop_db = Inl PermissionDenied
   \<and> UserViewSet_get_queryset (Authenticated alice) shop_db = [alice]
   \<and> UserProfileViewSet_get_queryset (Authenticated alice) shop_db = [\<lparr>profile_id = 1, profile_user = 1\<rparr>]
   \<and> UserViewSet_list (Authenticated root) shop_db = Inr [alice, root]
   \<and> UserProfileViewSet_list (Authenticated root) shop_db
       = Inr [\<lparr>profile_id = 1, profile_user = 1\<rparr>, \<lparr>profile_id = 2, profile_user = 2\<rparr>]"
proof -
  have a: "\<not> is_staff alice" and r: "is_staff root"
    by (simp_all add: alice_def root_def)
  have fu: "filter (\<lambda>r. user_id r = user_id alice) (users shop_db) = [alice]"
    by (simp add: shop_db_def alice_def root_def)
  have fp: "filter (\<lambda>r. profile_user r = user_id alice) (profiles shop_db)
              = [\<lparr>profile_id = 1, profile_user = 1\<rparr>]"
    by (simp add: shop_db_def alice_def)
  have us: "users shop_db = [alice, root]"
    and ps: "profiles shop_db = [\<lparr>profile_id = 1, profile_user = 1\<rparr>, \<lparr>profile_id = 2, profile_user = 2\<rparr>]"
    by (simp_all add: shop_db_def)
  from list_admin_only_queryset_scoped[of alice shop_db] a fu fp
  have 1: "UserViewSet_list (Authenticated alice) shop_db = Inl PermissionDenied
     \<and> UserViewSet_get_queryset (Authenticated alice) shop_db = [alice]
     \<and> UserProfileViewSet_get_queryset (Authenticated alice) shop_db = [\<lparr>profile_id = 1, profile_user = 1\<rparr>]"
    by metis
  from list_admin_only_queryset_scoped[of root shop_db] r us ps
  have 2: "UserViewSet_list (Authenticated root) shop_db = Inr [alice, root]
     \<and> UserProfileViewSet_list (Authenticated root) shop_db
       = Inr [\<lparr>profile_id = 1, profile_user = 1\<rparr>, \<lparr>profile_id = 2, profile_user = 2\<rparr>]"
    by metis
  from 1 2 show ?thesis by blast
qed

lemma find_save_user:
  "find (\<lambda>r. user_id r = user_id u) (save_user u us) = Some u"
proof (cases "user_id u \<in> set (map user_id us)")
  case True
  then have "find (\<lambda>r. user_id r = user_id u) (map (\<lambda>r. if user_id r = user_id u then u else r) us) = Some u"
    by (induction us) auto
  with True show ?thesis by (simp add: save_user_def)
next
  case False
  then have "find (\<lambda>r. user_id r = user_id u) us = None"
    by (induction us) auto
  with False show ?thesis by (simp add: save_user_def find_append_new)
qed

lemma check_change_password_Authenticated:
  "check_permissions (UserViewSet_get_permissions ActChangePassword) (Authenticated u) = None"
  by (simp add: check_permissions_def UserViewSet_get_permissions_def)

lemma change_password_Authenticated:
  "change_password validate mk chk salt (Authenticated u) d db =
     (case validate d of
        Inr (old, new) \<Rightarrow>
          if chk old (password u)
          then (Response 200 (Message ''Password changed successfully''),
                db\<lparr>users := save_user (u\<lparr>password := mk salt new\<rparr>) (users db)\<rparr>)
          else (Response 400 (FieldErrors [(''old_password'', [''Wrong password.''])]), db)
      | Inl errs \<Rightarrow> (Response 400 (FieldErrors errs), db))"
  by (simp add: change_password_def check_change_password_Authenticated)

text \<open>
  C7 (as stated). After a successful change the old credential is said to verify no
  longer. Nothing compares the new credential with the old one: \<open>alice\<close> changes her
  password to the one she has, the change succeeds, and the old credential verifies
  against the stored hash.
\<close>

theorem change_password_old_rejected_counterexample:
  "change_password (ChangePasswordSerializer [''password'']) toy_make_password toy_check_password ''s1''
     (Authenticated alice) [(''old_password'', ''Str0ngPass!''), (''new_password'', ''Str0ngPass!'')] shop_db
     = (Response 200 (Message ''Password changed successfully''), shop_db)
   \<and> stored_hash (user_id alice) shop_db = Some (password alice)
   \<and> toy_check_password ''Str0ngPass!'' (password alice)"
  by (simp add: change_password_Authenticated ChangePasswordSerializer_def validate_password_def
      save_user_def stored_hash_def shop_db_def alice_def root_def toy_make_password_def
      toy_check_password_def)

text \<open>
  C7 (amended). With a hasher whose hashes verify their own plaintext and no other:
  after a change_password that succeeds, the new credential verifies against the stored
  hash, and the old credential verifies no longer unless it equals the new one.
\<close>

theorem change_password_new_verifies:
  assumes "\<forall>s p q. chk p (mk s q) = (p = q)"
    and "validate d = Inr (old, new)"
    and "change_password validate mk chk salt (Authenticated u) d db
           = (Response 200 (Message ''Password changed successfully''), db')"
  shows "chk old (password u)
         \<and> stored_hash (user_id u) db' = Some (mk salt new)
         \<and> chk new (mk salt new)
         \<and> (chk old (mk salt new) \<longleftrightarrow> old = new)"
proof -
  from assms(2,3) have ok: "chk old (password u)"
    and db': "db' = db\<lparr>users := save_user (u\<lparr>password := mk salt new\<rparr>) (users db)\<rparr>"
    by (simp_all add: change_password_Authenticated split: if_splits)
  have "find (\<lambda>r. user_id r = user_id u) (save_user (u\<lparr>password := mk salt new\<rparr>) (users db))
          = Some (u\<lparr>password := mk salt new\<rparr>)"
    using find_save_user[of "u\<lparr>password := mk salt new\<rparr>" "users db"] by simp
  then have "stored_hash (user_id u) db' = Some (mk salt new)"
    by (simp add: stored_hash_def db')
  with ok assms(1) show ?thesis by simp
qed

theorem change_password_new_verifies_witness:
  "stored_hash (user_id alice)
     (shop_db\<lparr>users := [alice\<lparr>password := toy_make_password ''s1'' ''N3wPassw0rd''\<rparr>, root]\<rparr>)
     = Some (toy_make_password ''s1'' ''N3wPassw0rd'')
   \<and> toy_check_password ''N3wPassw0rd'' (toy_make_password ''s1'' ''N3wPassw0rd'')
   \<and> \<not> toy_check_password ''Str0ngPass!'' (toy_make_password ''s1'' ''N3wPassw0rd'')"
proof -
  let ?d = "[(''old_password'', ''Str0ngPass!''), (''new_password'', ''N3wPassw0rd'')]"
  let ?v = "ChangePasswordSerializer [''password'']"
  let ?db = "shop_db\<lparr>users := [alice\<lparr>password := toy_make_password ''s1'' ''N3wPassw0rd''\<rparr>, root]\<rparr>"
  have h: "\<forall>s p q. toy_check_password p (toy_make_password s q) = (p = q)"
    by (auto simp: toy_check_password_def toy_make_password_def)
  have v: "?v ?d = Inr (''Str0ngPass!'', ''N3wPassw0rd'')"
    by (simp add: ChangePasswordSerializer_def validate_password_def)
  have c: "change_password ?v toy_make_password toy_check_password ''s1'' (Authenticated alice) ?d shop_db
             = (Response 200 (Message ''Password changed successfully''), ?db)"
    by (simp add: change_password_Authenticated v save_user_def shop_db_def alice_def root_def
        toy_make_password_def toy_check_password_def)
  have n: "''Str0ngPass!'' \<noteq> ''N3wPassw0rd''" by simp
  from change_password_new_verifies[OF h v c] n show ?thesis by blast
qed

text \<open>
  C8 (as stated). A current credential that does not match is said to be answered with
  the credential-mismatch error. The serializer runs first: with a new credential that
  fails validation the answer is the serializer's errors, whatever the current
  credential.
\<close>

theorem change_password_mismatch_error_counterexample:
  "\<not> toy_check_password ''wrong'' (password alice)
   \<and> change_password (ChangePasswordSerializer [''password'']) toy_make_password toy_check_password ''s1''
       (Authenticated alice) [(''old_password'', ''wrong''), (''new_password'', ''1'')] shop_db
     = (Response 400 (FieldErrors [(''new_password'',
          [''This password is too short.'', ''This password is entirely numeric.''])]), shop_db)"
  by (simp add: change_password_Authenticated ChangePasswordSerializer_def validate_password_def
      alice_def toy_make_password_def toy_check_password_def)

text \<open>
  C8 (amended). When change_password is called with request data that passes the
  serializer and a current credential that does not match the stored hash, the
  credential-mismatch error is returned. Whenever the current credential does not match,
  the response is an error (status 400), the store is unchanged: the stored hash is what
  it was and the principal's token is still there.
\<close>

theorem change_password_mismatch:
  "(\<forall>old new. validate d = Inr (old, new) \<and> \<not> chk old (password u) \<longrightarrow>
       change_password validate mk chk salt (Authenticated u) d db
         = (Response 400 (FieldErrors [(''old_password'', [''Wrong password.''])]), db))
   \<and> ((\<forall>old new. validate d = Inr (old, new) \<longrightarrow> \<not> chk old (password u)) \<longrightarrow>
       status (fst (change_password validate mk chk salt (Authenticated u) d db)) = 400
     \<and> snd (change_password validate mk chk salt (Authenticated u) d db) = db
     \<and> stored_hash (user_id u) (snd (change_password validate mk chk salt (Authenticated u) d db))
         = stored_hash (user_id u) db
     \<and> token_of (user_id u) (snd (change_password validate mk chk salt (Authenticated u) d db))
         = token_of (user_id u) db)"
proof (intro conjI allI impI)
  fix old new assume "validate d = Inr (old, new) \<and> \<not> chk old (password u)"
  then show "change_password validate mk chk salt (Authenticated u) d db
         = (Response 400 (FieldErrors [(''old_password'', [''Wrong password.''])]), db)"
    by (simp add: change_password_Authenticated)
next
  assume a: "\<forall>old new. validate d = Inr (old, new) \<longrightarrow> \<not> chk old (password u)"
  have r: "status (fst (change_password validate mk chk salt (Authenticated u) d db)) = 400
     \<and> snd (change_password validate mk chk salt (Authenticated u) d db) = db"
  proof (cases "validate d")
    case (Inl errs)
    then show ?thesis by (simp add: change_password_Authenticated)
  next
    case (Inr p)
    obtain old new where p: "p = (old, new)" by (metis prod.collapse)
    with Inr a have "\<not> chk old (password u)" by simp
    with Inr p show ?thesis by (simp add: change_password_Authenticated)
  qed
  from r show "status (fst (change_password validate mk chk salt (Authenticated u) d db)) = 400"
    by simp
  from r show "snd (change_password validate mk chk salt (Authenticated u) d db) = db"
    by simp
  from r show "stored_hash (user_id u) (snd (change_password validate mk chk salt (Authenticated u) d db))
         = stored_hash (user_id u) db"
    by simp
  from r show "token_of (user_id u) (snd (change_password validate mk chk salt (Authenticated u) d db))
         = token_of (user_id u) db"
    by simp
qed

theorem change_password_mismatch_witness:
  "change_password (ChangePasswordSerializer [''password'']) toy_make_password toy_check_password ''s1''
     (Authenticated alice) [(''old_password'', ''wrong''), (''new_password'', ''N3wPassw0rd'')] shop_db
     = (Response 400 (FieldErrors [(''old_password'', [''Wrong password.''])]), shop_db)
   \<and> stored_hash (user_id alice) shop_db = Some (password alice)
   \<and> token_of (user_id alice) shop_db = Some \<lparr>key = ''9944b091'', token_user = 1\<rparr>"
proof -
  let ?d = "[(''old_password'', ''wrong''), (''new_password'', ''N3wPassw0rd'')]"
  let ?v = "ChangePasswordSerializer [''password'']"
  have v: "?v ?d = Inr (''wrong'', ''N3wPassw0rd'')"
    by (simp add: ChangePasswordSerializer_def validate_password_def)
  have w: "\<not> toy_check_password ''wrong'' (password alice)"
    by (simp add: alice_def toy_make_password_def toy_check_password_def)
  have s: "stored_hash (user_id alice) shop_db = Some (password alice)"
    by (simp add: stored_hash_def shop_db_def alice_def)
  have t: "token_of (user_id alice) shop_db = Some \<lparr>key = ''9944b091'', token_user = 1\<rparr>"
    by (simp add: token_of_def shop_db_def alice_def)
  from change_password_mismatch[of "?v" "?d" toy_check_password alice toy_make_password "''s1''" shop_db] v w
  have "change_password ?v toy_make_password toy_check_password ''s1'' (Authenticated alice) ?d shop_db
     = (Response 400 (FieldErrors [(''old_password'', [''Wrong password.''])]), shop_db)"
    by blast
  with s t show ?thesis by blast
qed

section \<open>Catalog: results\<close>

subsection \<open>Tables and \<open>Model.save\<close>\<close>

lemma fold_max_ge: "a \<le> fold max xs a \<and> (\<forall>x \<in> set xs. x \<le> fold max xs (a::nat))"
proof (induction xs arbitrary: a)
  case Nil
  show ?case by simp
next
  case (Cons y ys)
  from Cons[of "max y a"] show ?case by auto
qed

lemma next_pk_fresh: "next_pk t \<notin> set (map fst t)"
proof
  assume "next_pk t \<in> set (map fst t)"
  then have "next_pk t \<le> fold max (map fst t) 0"
    using fold_max_ge[of 0 "map fst t"] by blast
  then show False by (simp add: next_pk_def)
qed

lemma write_row_mem: "(k, row) \<in> set (write_row k row t)"
proof (cases "k \<in> set (map fst t)")
  case True
  then obtain r where r: "(k, r) \<in> set t" by auto
  let ?g = "\<lambda>(j, r). if j = k then (j, row) else (j, r)"
  have "?g (k, r) \<in> ?g ` set t" using r by (rule imageI)
  then have "(k, row) \<in> set (map ?g t)" by simp
  with True show ?thesis by (simp add: write_row_def)
next
  case False
  then show ?thesis by (simp add: write_row_def)
qed

lemma write_row_other:
  "(j, r) \<in> set t \<Longrightarrow> j \<noteq> k \<Longrightarrow> (j, r) \<in> set (write_row k row t)"
  by (force simp: write_row_def)

lemma Model_save_cases:
  "Model_save ok self_pk self t = (Inl IntegrityError, t)
   \<or> (\<exists>k. Model_save ok self_pk self t = (Inr k, write_row k self t) \<and> ok (write_row k self t)
          \<and> k = (case self_pk of Some k \<Rightarrow> k | None \<Rightarrow> next_pk t))"
  by (simp add: Model_save_def Let_def)

lemma Model_save_Inr:
  assumes "Model_save ok self_pk self t = (Inr k, t')"
  shows "t' = write_row k self t \<and> ok t' \<and> k = (case self_pk of Some k \<Rightarrow> k | None \<Rightarrow> next_pk t)"
  using assms by (auto simp: Model_save_def Let_def split: if_splits)

subsection \<open>The constraint on (product, is_primary)\<close>

lemma distinct_map_filter_le1:
  "distinct (map f xs) \<Longrightarrow> length (filter (\<lambda>x. f x = c) xs) \<le> 1"
proof (induction xs)
  case Nil
  show ?case by simp
next
  case (Cons x xs)
  show ?case
  proof (cases "f x = c")
    case True
    from Cons.prems have "f x \<notin> f ` set xs" by simp
    with True have "\<forall>y \<in> set xs. f y \<noteq> c" by (metis imageI)
    then have "filter (\<lambda>x. f x = c) xs = []" by (simp add: filter_empty_conv)
    with True show ?thesis by simp
  next
    case False
    with Cons show ?thesis by simp
  qed
qed

lemma primaries_of_le1: "unique_together t \<Longrightarrow> length (primaries_of p t) \<le> 1"
proof -
  assume "unique_together t"
  then have "length (filter (\<lambda>x. (case x of (k, r) \<Rightarrow> (product r, is_primary r)) = (p, True)) t) \<le> 1"
    unfolding unique_together_def by (rule distinct_map_filter_le1)
  moreover have "primaries_of p t
                  = filter (\<lambda>x. (case x of (k, r) \<Rightarrow> (product r, is_primary r)) = (p, True)) t"
    unfolding primaries_of_def by (rule filter_cong) auto
  ultimately show ?thesis by simp
qed

lemma non_primaries_of_le1: "unique_together t \<Longrightarrow> length (non_primaries_of p t) \<le> 1"
proof -
  assume "unique_together t"
  then have "length (filter (\<lambda>x. (case x of (k, r) \<Rightarrow> (product r, is_primary r)) = (p, False)) t) \<le> 1"
    unfolding unique_together_def by (rule distinct_map_filter_le1)
  moreover have "non_primaries_of p t
                  = filter (\<lambda>x. (case x of (k, r) \<Rightarrow> (product r, is_primary r)) = (p, False)) t"
    unfolding non_primaries_of_def by (rule filter_cong) auto
  ultimately show ?thesis by simp
qed

lemma images_of_split:
  "length (images_of p t) = length (primaries_of p t) + length (non_primaries_of p t)"
  by (induction t) (auto simp: images_of_def primaries_of_def non_primaries_of_def)

lemma images_of_le2: "unique_together t \<Longrightarrow> length (images_of p t) \<le> 2"
  using primaries_of_le1[of t p] non_primaries_of_le1[of t p] by (simp add: images_of_split)

lemma ProductImage_save_table:
  "snd (ProductImage_save self_pk self t) = t \<or> unique_together (snd (ProductImage_save self_pk self t))"
proof (cases "is_primary self")
  case False
  then show ?thesis
    using Model_save_cases[of unique_together self_pk self t] by (auto simp: ProductImage_save_def)
next
  case True
  show ?thesis
  proof (cases "demote_primaries (product self) t")
    case (Inl e)
    with True show ?thesis by (simp add: ProductImage_save_def)
  next
    case (Inr t1)
    then have "unique_together t1"
      by (auto simp: demote_primaries_def Let_def split: if_splits)
    with True Inr show ?thesis
      using Model_save_cases[of unique_together self_pk self t1] by (auto simp: ProductImage_save_def)
  qed
qed

lemma ProductImage_save_unique:
  "unique_together t \<Longrightarrow> unique_together (snd (ProductImage_save self_pk self t))"
  using ProductImage_save_table[of self_pk self t] by auto

lemma run_saves_unique: "unique_together t \<Longrightarrow> unique_together (run_saves saves t)"
  by (induction saves arbitrary: t) (auto simp: ProductImage_save_unique)

subsection \<open>Primary image exclusivity\<close>

text \<open>
  C1. The claim is what \<open>ProductImage.save\<close> sets out to do ("Ensure only one primary
  image per product"), and the declared constraint defeats it. Product 7 has a stored
  primary image (1) and a stored non-primary image (2). Saving a new primary image, the
  update that demotes image 1 would give product 7 two rows with \<open>is_primary = False\<close>,
  which \<open>unique_together\<close> refuses: the save raises \<open>IntegrityError\<close>, the new image
  is not written and image 1 is still the primary. Saving the stored non-primary
  image 2 as primary is refused the same way. With no non-primary image stored, the
  same save does what the claim says: image 1 is demoted and the new image is the
  primary.
\<close>

theorem primary_save_refused_by_unique_together:
  "demote_primaries 7
     [(1, \<lparr>product = 7, is_primary = True, alt_text = ''front''\<rparr>),
      (2, \<lparr>product = 7, is_primary = False, alt_text = ''side''\<rparr>)] = Inl IntegrityError
   \<and> ProductImage_save None \<lparr>product = 7, is_primary = True, alt_text = ''back''\<rparr>
       [(1, \<lparr>product = 7, is_primary = True, alt_text = ''front''\<rparr>),
        (2, \<lparr>product = 7, is_primary = False, alt_text = ''side''\<rparr>)]
     = (Inl IntegrityError,
        [(1, \<lparr>product = 7, is_primary = True, alt_text = ''front''\<rparr>),
         (2, \<lparr>product = 7, is_primary = False, alt_text = ''side''\<rparr>)])
   \<and> ProductImage_save (Some 2) \<lparr>product = 7, is_primary = True, alt_text = ''side''\<rparr>
       [(1, \<lparr>product = 7, is_primary = True, alt_text = ''front''\<rparr>),
        (2, \<lparr>product = 7, is_primary = False, alt_text = ''side''\<rparr>)]
     = (Inl IntegrityError,
        [(1, \<lparr>product = 7, is_primary = True, alt_text = ''front''\<rparr>),
         (2, \<lparr>product = 7, is_primary = False, alt_text = ''side''\<rparr>)])
   \<and> primaries_of 7
       [(1, \<lparr>product = 7, is_primary = True, alt_text = ''front''\<rparr>),
        (2, \<lparr>product = 7, is_primary = False, alt_text = ''side''\<rparr>)]
     = [(1, \<lparr>product = 7, is_primary = True, alt_text = ''front''\<rparr>)]
   \<and> ProductImage_save None \<lparr>product = 7, is_primary = True, alt_text = ''back''\<rparr>
       [(1, \<lparr>product = 7, is_primary = True, alt_text = ''front''\<rparr>)]
     = (Inr 2, [(1, \<lparr>product = 7, is_primary = False, alt_text = ''front''\<rparr>),
                (2, \<lparr>product = 7, is_primary = True, alt_text = ''back''\<rparr>)])"
  by (simp add: ProductImage_save_def demote_primaries_def Model_save_def write_row_def
      next_pk_def unique_together_def primaries_of_def Let_def)

subsection \<open>The declared constraint and the number of images\<close>

lemma insert_second_non_primary:
  assumes "\<not> is_primary self" and "non_primaries_of (product self) t \<noteq> []"
    and "k \<notin> set (map fst t)"
  shows "Model_save unique_together (Some k) self t = (Inl IntegrityError, t)"
proof -
  from assms(2) obtain j r where jr: "(j, r) \<in> set t" "product r = product self" "\<not> is_primary r"
    by (fastforce simp: non_primaries_of_def filter_empty_conv)
  let ?f = "\<lambda>(k, r). (product r, is_primary r)"
  have "?f (j, r) \<in> ?f ` set t" using jr(1) by (rule imageI)
  with jr(2,3) assms(1) have "(product self, is_primary self) \<in> ?f ` set t" by simp
  then have "\<not> unique_together (t @ [(k, self)])"
    by (simp add: unique_together_def)
  with assms(3) show ?thesis
    by (simp add: Model_save_def write_row_def)
qed

text \<open>
  C10. Under \<open>unique_together = ('product', 'is_primary')\<close> a product has at most one
  stored image with \<open>is_primary = false\<close> and at most one with \<open>is_primary = true\<close>,
  hence at most two stored images; every table that saves produce satisfies the
  constraint; and inserting a second non-primary image for a product is refused with
  \<open>IntegrityError\<close>, the table unchanged.
\<close>

theorem unique_together_at_most_two_images:
  "unique_together (run_saves saves [])
   \<and> (\<forall>p. length (images_of p (run_saves saves [])) \<le> 2)
   \<and> (unique_together t \<longrightarrow>
        (\<forall>p. length (primaries_of p t) \<le> 1 \<and> length (non_primaries_of p t) \<le> 1
              \<and> length (images_of p t) \<le> 2)
      \<and> (\<forall>self. \<not> is_primary self \<and> non_primaries_of (product self) t \<noteq> [] \<longrightarrow>
            ProductImage_save None self t = (Inl IntegrityError, t)
          \<and> (\<forall>k. k \<notin> set (map fst t) \<longrightarrow>
                ProductImage_save (Some k) self t = (Inl IntegrityError, t))))"
proof (intro conjI allI impI)
  have e: "unique_together []" by (simp add: unique_together_def)
  then show u: "unique_together (run_saves saves [])" by (rule run_saves_unique)
  fix p
  from u show "length (images_of p (run_saves saves [])) \<le> 2" by (rule images_of_le2)
next
  fix p assume u: "unique_together t"
  from u show "length (primaries_of p t) \<le> 1" by (rule primaries_of_le1)
  from u show "length (non_primaries_of p t) \<le> 1" by (rule non_primaries_of_le1)
  from u show "length (images_of p t) \<le> 2" by (rule images_of_le2)
next
  fix self :: ProductImage assume a: "\<not> is_primary self \<and> non_primaries_of (product self) t \<noteq> []"
  have "Model_save unique_together (Some (next_pk t)) self t = (Inl IntegrityError, t)"
    using a next_pk_fresh[of t] by (simp add: insert_second_non_primary)
  then have "Model_save unique_together None self t = (Inl IntegrityError, t)"
    by (simp add: Model_save_def)
  with a show "ProductImage_save None self t = (Inl IntegrityError, t)"
    by (simp add: ProductImage_save_def)
next
  fix self :: ProductImage and k assume a: "\<not> is_primary self \<and> non_primaries_of (product self) t \<noteq> []"
    and k: "k \<notin> set (map fst t)"
  then show "ProductImage_save (Some k) self t = (Inl IntegrityError, t)"
    by (simp add: ProductImage_save_def insert_second_non_primary)
qed

theorem unique_together_at_most_two_images_witness:
  "unique_together [(1, \<lparr>product = 7, is_primary = True, alt_text = ''front''\<rparr>),
                    (2, \<lparr>product = 7, is_primary = False, alt_text = ''side''\<rparr>)]
   \<and> length (images_of 7 [(1, \<lparr>product = 7, is_primary = True, alt_text = ''front''\<rparr>),
                            (2, \<lparr>product = 7, is_primary = False, alt_text = ''side''\<rparr>)]) \<le> 2
   \<and> ProductImage_save None \<lparr>product = 7, is_primary = False, alt_text = ''back''\<rparr>
        [(1, \<lparr>product = 7, is_primary = True, alt_text = ''front''\<rparr>),
         (2, \<lparr>product = 7, is_primary = False, alt_text = ''side''\<rparr>)]
      = (Inl IntegrityError,
         [(1, \<lparr>product = 7, is_primary = True, alt_text = ''front''\<rparr>),
          (2, \<lparr>product = 7, is_primary = False, alt_text = ''side''\<rparr>)])"
proof -
  let ?t = "[(1::nat, \<lparr>product = 7, is_primary = True, alt_text = ''front''\<rparr>),
             (2, \<lparr>product = 7, is_primary = False, alt_text = ''side''\<rparr>)]"
  let ?self = "\<lparr>product = 7, is_primary = False, alt_text = ''back''\<rparr>"
  have u: "unique_together ?t" by (simp add: unique_together_def)
  have n: "\<not> is_primary ?self \<and> non_primaries_of (product ?self) ?t \<noteq> []"
    by (simp add: non_primaries_of_def)
  from unique_together_at_most_two_images[where t = "?t" and saves = "[]"] u
  have "length (images_of 7 ?t) \<le> 2" by blast
  moreover from unique_together_at_most_two_images[where t = "?t" and saves = "[]"] u n
  have "ProductImage_save None ?self ?t = (Inl IntegrityError, ?t)" by blast
  ultimately show ?thesis using u by blast
qed

subsection \<open>Category parents\<close>

lemma set_write_row:
  "set (write_row k row t) = insert (k, row) {x \<in> set t. fst x \<noteq> k}"
proof (cases "k \<in> set (map fst t)")
  case True
  let ?g = "\<lambda>(j, r). if j = k then (j, row) else (j, r)"
  from True obtain r where "(k, r) \<in> set t" by auto
  then have "?g (k, r) \<in> ?g ` set t" by (rule imageI)
  then have 1: "(k, row) \<in> ?g ` set t" by simp
  have 2: "x \<in> ?g ` set t" if "x \<in> set t" "fst x \<noteq> k" for x
  proof -
    from that(2) have "?g x = x" by (cases x) simp
    moreover from that(1) have "?g x \<in> ?g ` set t" by (rule imageI)
    ultimately show ?thesis by simp
  qed
  have 3: "?g x \<in> insert (k, row) {x \<in> set t. fst x \<noteq> k}" if "x \<in> set t" for x
  proof -
    obtain j r where x: "x = (j, r)" by (cases x)
    with that show ?thesis by simp
  qed
  have "?g ` set t = insert (k, row) {x \<in> set t. fst x \<noteq> k}"
  proof (intro equalityI subsetI)
    fix y assume "y \<in> ?g ` set t"
    then obtain x where "x \<in> set t" and y: "y = ?g x" by (rule imageE)
    from 3[OF this(1)] show "y \<in> insert (k, row) {x \<in> set t. fst x \<noteq> k}"
      unfolding y .
  next
    fix y assume "y \<in> insert (k, row) {x \<in> set t. fst x \<noteq> k}"
    then have "y = (k, row) \<or> (y \<in> set t \<and> fst y \<noteq> k)" by simp
    then show "y \<in> ?g ` set t"
    proof
      assume "y = (k, row)" with 1 show ?thesis by simp
    next
      assume "y \<in> set t \<and> fst y \<noteq> k" then show ?thesis using 2 by simp
    qed
  qed
  with True show ?thesis by (simp add: write_row_def)
next
  case False
  have "{x \<in> set t. fst x \<noteq> k} = set t"
  proof (intro equalityI subsetI)
    fix x assume "x \<in> {x \<in> set t. fst x \<noteq> k}" then show "x \<in> set t" by simp
  next
    fix x assume x: "x \<in> set t"
    then have "fst x \<in> set (map fst t)" by simp
    with False have "fst x \<noteq> k" by metis
    with x show "x \<in> {x \<in> set t. fst x \<noteq> k}" by simp
  qed
  with False show ?thesis by (simp add: write_row_def)
qed

lemma keys_write_row: "set (map fst (write_row k row t)) = insert k (set (map fst t))"
proof -
  have "fst ` insert (k, row) {x \<in> set t. fst x \<noteq> k} = insert k (fst ` set t)"
  proof (intro equalityI subsetI)
    fix j assume "j \<in> fst ` insert (k, row) {x \<in> set t. fst x \<noteq> k}"
    then obtain x where "x \<in> insert (k, row) {x \<in> set t. fst x \<noteq> k}" and "j = fst x"
      by (rule imageE)
    then show "j \<in> insert k (fst ` set t)" by auto
  next
    fix j assume j: "j \<in> insert k (fst ` set t)"
    show "j \<in> fst ` insert (k, row) {x \<in> set t. fst x \<noteq> k}"
    proof (cases "j = k")
      case True
      have "fst (k, row) \<in> fst ` insert (k, row) {x \<in> set t. fst x \<noteq> k}"
        by (rule imageI) simp
      with True show ?thesis by simp
    next
      case False
      with j obtain x where x: "x \<in> set t" "j = fst x" by auto
      with False have "x \<in> insert (k, row) {x \<in> set t. fst x \<noteq> k}" by simp
      then have "fst x \<in> fst ` insert (k, row) {x \<in> set t. fst x \<noteq> k}" by (rule imageI)
      with x(2) show ?thesis by simp
    qed
  qed
  then show ?thesis by (simp add: set_write_row)
qed

lemma map_field_write_row:
  "f row1 = f row2 \<Longrightarrow>
     map (\<lambda>(k, r). f r) (write_row k row1 t) = map (\<lambda>(k, r). f r) (write_row k row2 t)"
  by (auto simp: write_row_def)

lemma map_of_write_row: "map_of (write_row k row t) k = Some row"
proof (cases "k \<in> set (map fst t)")
  case True
  then have "map_of (map (\<lambda>(j, r). if j = k then (j, row) else (j, r)) t) k = Some row"
    by (induction t) auto
  with True show ?thesis by (simp add: write_row_def)
next
  case False
  then have "map_of t k = None" by (simp add: map_of_eq_None_iff)
  with False show ?thesis by (simp add: write_row_def map_add_def)
qed

lemma Model_save_Some:
  "Model_save ok (Some k) self t =
     (if ok (write_row k self t) then (Inr k, write_row k self t) else (Inl IntegrityError, t))"
  by (simp add: Model_save_def Let_def)

lemma Category_update_swap:
  "(c\<lparr>parent := p\<rparr>)\<lparr>slug := s\<rparr> = (c\<lparr>slug := s\<rparr>)\<lparr>parent := p\<rparr>" for c :: Category
  by (cases c) simp

lemma category_constraints_parent:
  assumes "q = k \<or> q \<in> set (map fst t)"
  shows "category_constraints (write_row k (c\<lparr>parent := Some q\<rparr>) t)
           = category_constraints (write_row k (c\<lparr>parent := None\<rparr>) t)"
proof -
  let ?a = "c\<lparr>parent := Some q\<rparr>" and ?b = "c\<lparr>parent := None\<rparr>"
  have n: "map (\<lambda>(k, r). name r) (write_row k ?a t) = map (\<lambda>(k, r). name r) (write_row k ?b t)"
    by (rule map_field_write_row) simp
  have s: "map (\<lambda>(k, r). slug r) (write_row k ?a t) = map (\<lambda>(k, r). slug r) (write_row k ?b t)"
    by (rule map_field_write_row) simp
  have f: "(\<forall>(j, r) \<in> set (write_row k ?a t).
              case parent r of None \<Rightarrow> True | Some q \<Rightarrow> q \<in> set (map fst (write_row k ?a t)))
         = (\<forall>(j, r) \<in> set (write_row k ?b t).
              case parent r of None \<Rightarrow> True | Some q \<Rightarrow> q \<in> set (map fst (write_row k ?b t)))"
    using assms unfolding keys_write_row set_write_row by auto
  show ?thesis unfolding category_constraints_def n s f ..
qed

text \<open>
  C5 (as stated). A parent reference that makes a category its own ancestor is said to be
  rejected before any write. \<open>Category.save\<close> only fills the slug and writes: a category
  saved with itself as parent is stored so, and so is one saved with its own child as
  parent.
\<close>

theorem category_cycle_rejected_counterexample:
  "Category_save (\<lambda>s. s) (Some 1) \<lparr>name = ''Shoes'', slug = ''shoes'', parent = Some 1\<rparr>
     [(1, \<lparr>name = ''Shoes'', slug = ''shoes'', parent = None\<rparr>)]
     = (Inr 1, [(1, \<lparr>name = ''Shoes'', slug = ''shoes'', parent = Some 1\<rparr>)])
   \<and> own_ancestor [(1, \<lparr>name = ''Shoes'', slug = ''shoes'', parent = Some 1\<rparr>)] 1
   \<and> Category_save (\<lambda>s. s) (Some 1) \<lparr>name = ''Shoes'', slug = ''shoes'', parent = Some 2\<rparr>
        [(1, \<lparr>name = ''Shoes'', slug = ''shoes'', parent = None\<rparr>),
         (2, \<lparr>name = ''Boots'', slug = ''boots'', parent = Some 1\<rparr>)]
     = (Inr 1, [(1, \<lparr>name = ''Shoes'', slug = ''shoes'', parent = Some 2\<rparr>),
                (2, \<lparr>name = ''Boots'', slug = ''boots'', parent = Some 1\<rparr>)])
   \<and> own_ancestor [(1, \<lparr>name = ''Shoes'', slug = ''shoes'', parent = Some 2\<rparr>),
                    (2, \<lparr>name = ''Boots'', slug = ''boots'', parent = Some 1\<rparr>)] 1"
  by (simp add: Category_save_def Model_save_def write_row_def category_constraints_def
      own_ancestor_def)

text \<open>
  C5 (amended). \<open>Category.save\<close> performs no cycle validation: for every category and
  every parent reference to an existing category, the category itself included, the save
  is accepted exactly when the same save with no parent is accepted, and it stores the
  parent reference as given; with the category itself as parent the stored category is
  its own ancestor.
\<close>

theorem category_save_accepts_any_parent:
  "(q = k \<or> q \<in> set (map fst t)) \<longrightarrow>
     ((fst (Category_save slugify (Some k) (self\<lparr>parent := Some q\<rparr>) t) = Inr k)
        = (fst (Category_save slugify (Some k) (self\<lparr>parent := None\<rparr>) t) = Inr k))
   \<and> (fst (Category_save slugify (Some k) (self\<lparr>parent := Some q\<rparr>) t) = Inr k \<longrightarrow>
         map_option parent (map_of (snd (Category_save slugify (Some k) (self\<lparr>parent := Some q\<rparr>) t)) k)
           = Some (Some q)
       \<and> (q = k \<longrightarrow>
            own_ancestor (snd (Category_save slugify (Some k) (self\<lparr>parent := Some q\<rparr>) t)) k))"
proof (intro impI conjI)
  assume a: "q = k \<or> q \<in> set (map fst t)"
  let ?c = "if slug self = [] then self\<lparr>slug := slugify (name self)\<rparr> else self"
  have A: "Category_save slugify (Some k) (self\<lparr>parent := Some q\<rparr>) t
             = Model_save category_constraints (Some k) (?c\<lparr>parent := Some q\<rparr>) t"
    by (simp add: Category_save_def Category_update_swap)
  have B: "Category_save slugify (Some k) (self\<lparr>parent := None\<rparr>) t
             = Model_save category_constraints (Some k) (?c\<lparr>parent := None\<rparr>) t"
    by (simp add: Category_save_def Category_update_swap)
  show "(fst (Category_save slugify (Some k) (self\<lparr>parent := Some q\<rparr>) t) = Inr k)
        = (fst (Category_save slugify (Some k) (self\<lparr>parent := None\<rparr>) t) = Inr k)"
    unfolding A B Model_save_Some using category_constraints_parent[OF a, of ?c]
    by simp
  assume s: "fst (Category_save slugify (Some k) (self\<lparr>parent := Some q\<rparr>) t) = Inr k"
  then have t': "snd (Category_save slugify (Some k) (self\<lparr>parent := Some q\<rparr>) t)
                   = write_row k (?c\<lparr>parent := Some q\<rparr>) t"
    unfolding A Model_save_Some by (simp split: if_splits)
  show m: "map_option parent (map_of (snd (Category_save slugify (Some k) (self\<lparr>parent := Some q\<rparr>) t)) k)
           = Some (Some q)"
    unfolding t' by (simp add: map_of_write_row)
  show "own_ancestor (snd (Category_save slugify (Some k) (self\<lparr>parent := Some q\<rparr>) t)) k"
    if "q = k"
  proof -
    let ?t' = "write_row k (?c\<lparr>parent := Some q\<rparr>) t"
    have "(k, ?c\<lparr>parent := Some q\<rparr>) \<in> set ?t'" by (rule write_row_mem)
    then have "length ?t' \<noteq> 0" by auto
    then obtain n where n: "length ?t' = Suc n" by (cases "length ?t'") auto
    have "k \<in> set (ancestors (Suc n) ?t' k)"
      using that by (simp add: map_of_write_row)
    then show ?thesis unfolding t' own_ancestor_def n .
  qed
qed

theorem category_save_accepts_any_parent_witness:
  "fst (Category_save (\<lambda>s. s) (Some 1) \<lparr>name = ''Shoes'', slug = ''shoes'', parent = None\<rparr>
          [(1, \<lparr>name = ''Shoes'', slug = ''shoes'', parent = None\<rparr>)]) = Inr 1
   \<and> fst (Category_save (\<lambda>s. s) (Some 1) \<lparr>name = ''Shoes'', slug = ''shoes'', parent = Some 1\<rparr>
          [(1, \<lparr>name = ''Shoes'', slug = ''shoes'', parent = None\<rparr>)]) = Inr 1
   \<and> own_ancestor (snd (Category_save (\<lambda>s. s) (Some 1) \<lparr>name = ''Shoes'', slug = ''shoes'', parent = Some 1\<rparr>
          [(1, \<lparr>name = ''Shoes'', slug = ''shoes'', parent = None\<rparr>)])) 1"
proof -
  let ?self = "\<lparr>name = ''Shoes'', slug = ''shoes'', parent = None\<rparr>"
  let ?t = "[(1::nat, ?self)]"
  have n: "fst (Category_save (\<lambda>s. s) (Some 1) (?self\<lparr>parent := None\<rparr>) ?t) = Inr 1"
    by (simp add: Category_save_def Model_save_def write_row_def category_constraints_def)
  have k: "(1::nat) = 1 \<or> (1::nat) \<in> set (map fst ?t)" by simp
  from category_save_accepts_any_parent[where q = 1 and k = 1 and t = "?t" and self = "?self"
      and slugify = "\<lambda>s. s"] k n
  have "fst (Category_save (\<lambda>s. s) (Some 1) (?self\<lparr>parent := Some 1\<rparr>) ?t) = Inr 1
        \<and> own_ancestor (snd (Category_save (\<lambda>s. s) (Some 1) (?self\<lparr>parent := Some 1\<rparr>) ?t)) 1"
    by blast
  with n show ?thesis by simp
qed

subsection \<open>Decimal arithmetic under the context\<close>

lemma round_half_even_of_int: "round_half_even (of_int n) = n"
  by (simp add: round_half_even_def)

lemma round_half_even_cases:
  "(x - of_int \<lfloor>x\<rfloor> < 1 / 2 \<and> round_half_even x = \<lfloor>x\<rfloor>)
   \<or> (1 / 2 < x - of_int \<lfloor>x\<rfloor> \<and> round_half_even x = \<lfloor>x\<rfloor> + 1)
   \<or> (x - of_int \<lfloor>x\<rfloor> = 1 / 2 \<and> (round_half_even x = \<lfloor>x\<rfloor> \<or> round_half_even x = \<lfloor>x\<rfloor> + 1))"
  by (auto simp: round_half_even_def Let_def)

lemma round_half_even_bounds:
  "x - 1 / 2 \<le> of_int (round_half_even x) \<and> of_int (round_half_even x) \<le> x + 1 / 2"
proof -
  have f: "of_int \<lfloor>x\<rfloor> \<le> x" "x < of_int \<lfloor>x\<rfloor> + 1" by linarith+
  from round_half_even_cases[of x] show ?thesis
  proof (elim disjE conjE)
    assume a: "x - of_int \<lfloor>x\<rfloor> < 1 / 2" and r: "round_half_even x = \<lfloor>x\<rfloor>"
    show ?thesis unfolding r using f a by linarith
  next
    assume a: "1 / 2 < x - of_int \<lfloor>x\<rfloor>" and r: "round_half_even x = \<lfloor>x\<rfloor> + 1"
    show ?thesis unfolding r of_int_add of_int_1 using f a by linarith
  next
    assume a: "x - of_int \<lfloor>x\<rfloor> = 1 / 2" and r: "round_half_even x = \<lfloor>x\<rfloor>"
    show ?thesis unfolding r using f a by linarith
  next
    assume a: "x - of_int \<lfloor>x\<rfloor> = 1 / 2" and r: "round_half_even x = \<lfloor>x\<rfloor> + 1"
    show ?thesis unfolding r of_int_add of_int_1 using f a by linarith
  qed
qed

lemma round_half_even_unique:
  assumes "of_int n - 1 / 2 < x" and "x < of_int n + 1 / 2"
  shows "round_half_even x = n"
proof -
  let ?m = "round_half_even x"
  from round_half_even_bounds[of x] assms
  have "(of_int ?m :: rat) < of_int (n + 1)" and "(of_int (n - 1) :: rat) < of_int ?m"
    by simp_all
  then have "?m < n + 1" and "n - 1 < ?m"
    by (simp_all only: of_int_less_iff)
  then show ?thesis by linarith
qed


lemma adjusted_bounds:
  assumes "0 < x"
  shows "10 powi adjusted x \<le> x" and "x < 10 powi (adjusted x + 1)"
proof -
  obtain a b where ab: "quotient_of x = (a, b)" by (cases "quotient_of x")
  have b: "0 < b" using quotient_of_denom_pos[OF ab] .
  have x: "x = of_int a / of_int b" using quotient_of_div[OF ab] .
  have a: "0 < a"
  proof (rule ccontr)
    assume "\<not> 0 < a"
    then have "(of_int a :: rat) \<le> 0" by simp
    moreover from b have "(0 :: rat) < of_int b" by simp
    ultimately have "(of_int a :: rat) / of_int b \<le> 0" by (simp add: divide_le_0_iff)
    with x assms show False by simp
  qed
  define da where "da = floorlog 10 (nat a)"
  define db where "db = floorlog 10 (nat b)"
  define e where "e = int da - int db"
  from a have "10 ^ (da - 1) \<le> nat a \<and> nat a < 10 ^ da"
    unfolding da_def by (intro floorlog_bounds) simp_all
  then have "(of_nat (10 ^ (da - 1)) :: rat) \<le> of_nat (nat a)" and "(of_nat (nat a) :: rat) < of_nat (10 ^ da)"
    by (simp_all only: of_nat_le_iff of_nat_less_iff)
  with a have A: "(10 :: rat) ^ (da - 1) \<le> of_int a" "(of_int a :: rat) < 10 ^ da"
    by simp_all
  from b have "10 ^ (db - 1) \<le> nat b \<and> nat b < 10 ^ db"
    unfolding db_def by (intro floorlog_bounds) simp_all
  then have "(of_nat (10 ^ (db - 1)) :: rat) \<le> of_nat (nat b)" and "(of_nat (nat b) :: rat) < of_nat (10 ^ db)"
    by (simp_all only: of_nat_le_iff of_nat_less_iff)
  with b have B: "(10 :: rat) ^ (db - 1) \<le> of_int b" "(of_int b :: rat) < 10 ^ db"
    by simp_all
  from a have da: "1 \<le> da" unfolding da_def by (simp add: floorlog_def)
  from b have db: "1 \<le> db" unfolding db_def by (simp add: floorlog_def)
  have a0: "(0 :: rat) < of_int a" and b0: "(0 :: rat) < of_int b" using a b by simp_all
  have up: "x < 10 powi (e + 1)"
  proof -
    have "(of_int a :: rat) / of_int b < 10 ^ da / 10 ^ (db - 1)"
      using a0 A(2) B(1) by (intro frac_less) simp_all
    moreover have "e + 1 = int da - int (db - 1)" using db by (simp add: e_def)
    then have "(10 :: rat) powi (e + 1) = 10 ^ da / 10 ^ (db - 1)"
      by (simp add: power_int_diff)
    ultimately show ?thesis by (simp add: x)
  qed
  have lo: "10 powi (e - 1) \<le> x"
  proof -
    have "(10 :: rat) ^ (da - 1) / 10 ^ db \<le> of_int a / of_int b"
      using a0 b0 A(1) B(2) by (intro frac_le) simp_all
    moreover have "e - 1 = int (da - 1) - int db" using da by (simp add: e_def)
    then have "(10 :: rat) powi (e - 1) = 10 ^ (da - 1) / 10 ^ db"
      by (simp add: power_int_diff)
    ultimately show ?thesis by (simp add: x)
  qed
  have adj: "adjusted x = (if 10 powi e \<le> x then e else e - 1)"
    using assms ab by (simp add: adjusted_def Let_def e_def da_def db_def)
  show "10 powi adjusted x \<le> x" using lo by (simp add: adj)
  show "x < 10 powi (adjusted x + 1)" using up by (auto simp: adj not_le)
qed

lemma pow10_less_imp_less:
  assumes "(10 :: rat) powi m < 10 powi n"
  shows "m < n"
proof (rule ccontr)
  assume "\<not> m < n"
  then have "n \<le> m" by simp
  then have "(10 :: rat) powi n \<le> 10 powi m" by (rule power_int_increasing) simp
  with assms show False by simp
qed

lemma adjusted_unique:
  assumes "10 powi e \<le> x" and "x < 10 powi (e + 1)"
  shows "adjusted x = e"
proof -
  have "(0 :: rat) < 10 powi e" by simp
  with assms(1) have x: "0 < x" by linarith
  from adjusted_bounds[OF x] assms
  have "(10 :: rat) powi adjusted x < 10 powi (e + 1)" and "(10 :: rat) powi e < 10 powi (adjusted x + 1)"
    by linarith+
  then have "adjusted x < e + 1" and "e < adjusted x + 1"
    by (simp_all only: pow10_less_imp_less)
  then show ?thesis by linarith
qed


lemma scaled_bounds:
  assumes "0 < x"
  shows "10 ^ 27 \<le> x / 10 powi (adjusted x - 27)" and "x / 10 powi (adjusted x - 27) < 10 ^ 28"
proof -
  let ?s = "(10 :: rat) powi (adjusted x - 27)"
  have s: "0 < ?s" by simp
  have "(10 :: rat) powi (27 + (adjusted x - 27)) = 10 powi 27 * ?s"
    by (rule power_int_add) simp
  then have l: "10 ^ 27 * ?s = 10 powi adjusted x" by simp
  have "(10 :: rat) powi (28 + (adjusted x - 27)) = 10 powi 28 * ?s"
    by (rule power_int_add) simp
  moreover have "28 + (adjusted x - 27) = adjusted x + 1" by simp
  ultimately have u: "10 ^ 28 * ?s = 10 powi (adjusted x + 1)" by simp
  from adjusted_bounds(1)[OF assms] l have "10 ^ 27 * ?s \<le> x" by simp
  with s show "10 ^ 27 \<le> x / ?s" by (simp add: pos_le_divide_eq)
  from adjusted_bounds(2)[OF assms] u have "x < 10 ^ 28 * ?s" by simp
  with s show "x / ?s < 10 ^ 28" by (simp add: pos_divide_less_eq)
qed

lemma context_round_pos:
  assumes "0 < x"
  shows "context_round x = of_int (round_half_even (x / 10 powi (adjusted x - 27))) * 10 powi (adjusted x - 27)"
  using assms by (simp add: context_round_def Let_def)

lemma context_round_coefficient:
  assumes "0 < x"
  shows "10 ^ 27 \<le> round_half_even (x / 10 powi (adjusted x - 27))"
    and "round_half_even (x / 10 powi (adjusted x - 27)) \<le> 10 ^ 28"
proof -
  let ?z = "x / 10 powi (adjusted x - 27)"
  let ?n = "round_half_even ?z"
  from round_half_even_bounds[of ?z] scaled_bounds[OF assms]
  have "(10 :: rat) ^ 27 - 1 < of_int ?n" and "(of_int ?n :: rat) < 10 ^ 28 + 1"
    by linarith+
  then have "(of_int (10 ^ 27 - 1) :: rat) < of_int ?n" and "(of_int ?n :: rat) < of_int (10 ^ 28 + 1)"
    by simp_all
  then have "10 ^ 27 - 1 < ?n" and "?n < 10 ^ 28 + 1"
    by (simp_all only: of_int_less_iff)
  then show "10 ^ 27 \<le> ?n" and "?n \<le> 10 ^ 28" by linarith+
qed

lemma context_round_representable:
  assumes "0 < x"
  shows "representable (context_round x)"
proof -
  let ?s = "(10 :: rat) powi (adjusted x - 27)"
  let ?n = "round_half_even (x / ?s)"
  note c = context_round_coefficient[OF assms]
  show ?thesis
  proof (cases "?n < 10 ^ 28")
    case True
    moreover have "(0 :: int) < 10 ^ 27" by simp
    with c(1) have "0 < ?n" by linarith
    ultimately show ?thesis
      unfolding representable_def context_round_pos[OF assms] by blast
  next
    case False
    with c(2) have n: "?n = 10 ^ 28" by linarith
    have "(10 :: rat) powi (28 + (adjusted x - 27)) = 10 powi 28 * ?s"
      by (rule power_int_add) simp
    then have "context_round x = of_int 1 * 10 powi (28 + (adjusted x - 27))"
      unfolding context_round_pos[OF assms] n by simp
    moreover have "(0 :: int) < 1 \<and> (1 :: int) < 10 ^ 28" by simp
    ultimately show ?thesis unfolding representable_def by blast
  qed
qed

lemma representable_pos: "representable y \<Longrightarrow> 0 < y"
  by (auto simp: representable_def)

lemma representable_times_100: "representable y \<Longrightarrow> representable (y * 100)"
proof -
  assume "representable y"
  then obtain n e where n: "0 < n" "n < 10 ^ 28" and y: "y = of_int n * 10 powi e"
    unfolding representable_def by blast
  have "(10 :: rat) powi (e + 2) = 10 powi e * 10 powi 2"
    by (rule power_int_add) simp
  then have "y * 100 = of_int n * 10 powi (e + 2)" by (simp add: y)
  with n show ?thesis unfolding representable_def by blast
qed

lemma context_round_exact:
  assumes "representable x"
  shows "context_round x = x"
proof -
  from assms obtain n e where n: "0 < n" "n < 10 ^ 28" and x: "x = of_int n * 10 powi e"
    unfolding representable_def by blast
  have pos: "0 < x" using assms by (rule representable_pos)
  let ?a = "adjusted x"
  let ?s = "(10 :: rat) powi (?a - 27)"
  have "(of_int n :: rat) < of_int (10 ^ 28)" using n(2) by (simp only: of_int_less_iff)
  then have "(of_int n :: rat) < 10 powi 28" by simp
  then have "x < 10 powi 28 * 10 powi e" by (simp add: x)
  moreover have "(10 :: rat) powi (28 + e) = 10 powi 28 * 10 powi e"
    by (rule power_int_add) simp
  ultimately have "x < 10 powi (28 + e)" by simp
  with adjusted_bounds(1)[OF pos] have "(10 :: rat) powi ?a < 10 powi (28 + e)" by linarith
  then have "?a < 28 + e" by (rule pow10_less_imp_less)
  then have k: "0 \<le> e - (?a - 27)" by simp
  have "(10 :: rat) powi (e - (?a - 27)) = 10 powi e / ?s"
    by (rule power_int_diff) simp
  then have "x / ?s = of_int n * 10 powi (e - (?a - 27))" by (simp add: x)
  also have "\<dots> = of_int n * 10 ^ nat (e - (?a - 27))"
    using k by (simp add: power_int_nonneg_exp)
  also have "\<dots> = of_int (n * 10 ^ nat (e - (?a - 27)))" by simp
  finally have z: "x / ?s = of_int (n * 10 ^ nat (e - (?a - 27)))" .
  have "round_half_even (x / ?s) = n * 10 ^ nat (e - (?a - 27))"
    unfolding z by (rule round_half_even_of_int)
  then have "context_round x = of_int (n * 10 ^ nat (e - (?a - 27))) * ?s"
    unfolding context_round_pos[OF pos] by simp
  also have "\<dots> = x / ?s * ?s" unfolding z ..
  also have "\<dots> = x" by simp
  finally show ?thesis .
qed

lemma context_round_error:
  assumes "0 < x"
  shows "\<bar>context_round x - x\<bar> \<le> x / (2 * 10 ^ 27)"
proof -
  let ?s = "(10 :: rat) powi (adjusted x - 27)"
  let ?z = "x / ?s"
  have s: "0 < ?s" by simp
  have x: "x = ?z * ?s" by simp
  have "context_round x - x = (of_int (round_half_even ?z) - ?z) * ?s"
    unfolding context_round_pos[OF assms] by (simp add: algebra_simps)
  then have "\<bar>context_round x - x\<bar> = \<bar>of_int (round_half_even ?z) - ?z\<bar> * ?s"
    using s by (simp add: abs_mult)
  also have "\<dots> \<le> 1 / 2 * ?s"
  proof (rule mult_right_mono)
    from round_half_even_bounds[of ?z] show "\<bar>of_int (round_half_even ?z) - ?z\<bar> \<le> 1 / 2"
      by linarith
    show "0 \<le> ?s" by simp
  qed
  also have "\<dots> \<le> x / (2 * 10 ^ 27)"
  proof -
    from scaled_bounds(1)[OF assms] s have "10 ^ 27 * ?s \<le> x" by (simp add: pos_le_divide_eq)
    then show ?thesis by (simp add: field_simps)
  qed
  finally show ?thesis .
qed


lemma round_half_even_tie:
  "round_half_even (of_int f + 1 / 2) = (if even f then f else f + 1)"
proof -
  have "\<lfloor>(of_int f :: rat) + 1 / 2\<rfloor> = f" by (rule floor_unique) simp_all
  then show ?thesis by (simp add: round_half_even_def Let_def)
qed

lemma round_half_even_minus: "round_half_even (- x) = - round_half_even x"
proof (cases "x - of_int \<lfloor>x\<rfloor> = 1 / 2")
  case True
  define f where "f = \<lfloor>x\<rfloor>"
  from True have x: "x = of_int f + 1 / 2" unfolding f_def by simp
  then have m: "- x = of_int (- f - 1) + 1 / 2" by simp
  have "round_half_even (- x) = (if even (- f - 1) then - f - 1 else - f - 1 + 1)"
    unfolding m by (rule round_half_even_tie)
  moreover have "round_half_even x = (if even f then f else f + 1)"
    unfolding x by (rule round_half_even_tie)
  ultimately show ?thesis by simp
next
  case False
  let ?n = "round_half_even x"
  have f: "of_int \<lfloor>x\<rfloor> \<le> x" "x < of_int \<lfloor>x\<rfloor> + 1" by linarith+
  from round_half_even_cases[of x] False
  have "of_int ?n - 1 / 2 < x \<and> x < of_int ?n + 1 / 2"
  proof (elim disjE conjE)
    assume a: "x - of_int \<lfloor>x\<rfloor> < 1 / 2" and r: "round_half_even x = \<lfloor>x\<rfloor>"
    show ?thesis unfolding r using f a by linarith
  next
    assume a: "1 / 2 < x - of_int \<lfloor>x\<rfloor>" and r: "round_half_even x = \<lfloor>x\<rfloor> + 1"
    show ?thesis unfolding r of_int_add of_int_1 using f a by linarith
  next
    assume "x - of_int \<lfloor>x\<rfloor> = 1 / 2" and "x - of_int \<lfloor>x\<rfloor> \<noteq> 1 / 2"
    then show ?thesis by simp
  next
    assume "x - of_int \<lfloor>x\<rfloor> = 1 / 2" and "x - of_int \<lfloor>x\<rfloor> \<noteq> 1 / 2"
    then show ?thesis by simp
  qed
  then have "of_int (- ?n) - 1 / 2 < - x" and "- x < of_int (- ?n) + 1 / 2" by simp_all
  then show ?thesis by (rule round_half_even_unique)
qed

lemma context_round_minus: "context_round (- x) = - context_round x"
proof (cases "x = 0")
  case True
  then show ?thesis by (simp add: context_round_def)
next
  case False
  have "adjusted (- x) = adjusted x" by (simp add: adjusted_def)
  with False show ?thesis
    by (simp add: context_round_def Let_def round_half_even_minus)
qed

lemma adjusted_times_100:
  assumes "x \<noteq> 0"
  shows "adjusted (x * 100) = adjusted x + 2"
proof -
  have m: "adjusted (- y) = adjusted y" for y by (simp add: adjusted_def)
  have pos: "adjusted (y * 100) = adjusted y + 2" if y: "0 < y" for y
  proof (rule adjusted_unique)
    have e: "(10 :: rat) powi (adjusted y + 2) = 10 powi adjusted y * 100"
      and f: "(10 :: rat) powi (adjusted y + 2 + 1) = 10 powi (adjusted y + 1) * 100"
      by (simp_all add: power_int_add)
    from adjusted_bounds[OF y] show "10 powi (adjusted y + 2) \<le> y * 100"
      and "y * 100 < 10 powi (adjusted y + 2 + 1)"
      unfolding e f by simp_all
  qed
  show ?thesis
  proof (cases "0 < x")
    case True
    then show ?thesis by (rule pos)
  next
    case False
    with assms have "0 < - x" by simp
    then have "adjusted (- x * 100) = adjusted (- x) + 2" by (rule pos)
    moreover have "- x * 100 = - (x * 100)" by simp
    ultimately show ?thesis using m[of x] m[of "x * 100"] by simp
  qed
qed

lemma context_round_times_100: "context_round (x * 100) = context_round x * 100"
proof (cases "x = 0")
  case True
  then show ?thesis by (simp add: context_round_def)
next
  case False
  define Q where "Q = (10 :: rat) powi (adjusted x - 27)"
  have e: "adjusted (x * 100) - 27 = (adjusted x - 27) + 2"
    using adjusted_times_100[OF False] by simp
  have "(10 :: rat) powi ((adjusted x - 27) + 2) = 10 powi (adjusted x - 27) * 10 powi 2"
    by (rule power_int_add) simp
  also have "(10 :: rat) powi 2 = 100" by simp
  finally have Q': "10 powi (adjusted (x * 100) - 27) = Q * 100" unfolding e Q_def .
  have l: "context_round (x * 100)
             = of_int (round_half_even (x * 100 / (Q * 100))) * (Q * 100)"
    unfolding context_round_def Let_def Q' using False by simp
  have r: "context_round x = of_int (round_half_even (x / Q)) * Q"
    unfolding context_round_def Let_def Q_def using False by simp
  have "x * 100 / (Q * 100) = x / Q" by simp
  then show ?thesis unfolding l r by simp
qed

lemma context_round_idem: "context_round (context_round x) = context_round x"
proof -
  have pos: "context_round (context_round y) = context_round y" if "0 < y" for y
  proof -
    from that have "representable (context_round y)" by (rule context_round_representable)
    then show ?thesis by (rule context_round_exact)
  qed
  consider "x = 0" | "0 < x" | "0 < - x" by linarith
  then show ?thesis
  proof cases
    case 1
    then show ?thesis by (simp add: context_round_def)
  next
    case 2
    then show ?thesis by (rule pos)
  next
    case 3
    then have "context_round (context_round (- x)) = context_round (- x)" by (rule pos)
    then show ?thesis by (simp add: context_round_minus)
  qed
qed

lemma context_round_eq_0: "context_round x = 0 \<longleftrightarrow> x = 0"
proof
  assume z: "context_round x = 0"
  show "x = 0"
  proof (rule ccontr)
    assume "x \<noteq> 0"
    then consider "0 < x" | "0 < - x" by linarith
    then show False
    proof cases
      case 1
      then have "representable (context_round x)" by (rule context_round_representable)
      then have "0 < context_round x" by (rule representable_pos)
      with z show False by simp
    next
      case 2
      then have "representable (context_round (- x))" by (rule context_round_representable)
      then have "0 < context_round (- x)" by (rule representable_pos)
      with z show False by (simp add: context_round_minus)
    qed
  qed
qed (simp add: context_round_def)

lemma hundredths_representable:
  assumes "0 < N" and "N < 10 ^ 28"
  shows "representable (of_int N / 100)"
proof -
  have "(10 :: rat) powi (- 2) = 1 / 10 powi 2" by (rule power_int_minus_divide)
  then have "(of_int N :: rat) / 100 = of_int N * 10 powi (- 2)" by simp
  with assms show ?thesis unfolding representable_def by blast
qed

lemma half_step_representable:
  assumes "0 < m" and "m < 10 ^ 27"
  shows "representable (of_int m / 20000)"
proof -
  have "(10 :: rat) powi (- 5) = 1 / 10 powi 5" by (rule power_int_minus_divide)
  then have "(of_int m :: rat) / 20000 = of_int (m * 5) * 10 powi (- 5)" by simp
  moreover from assms have "0 < m * 5" and "m * 5 < 10 ^ 28" by simp_all
  ultimately show ?thesis unfolding representable_def by blast
qed

text \<open>
  The quotient of two amounts of cents, rounded to 28 digits and scaled to hundredths of
  a percent, rounds to the same integer as the exact quotient does: the exact value is
  either on a tie, which the context holds exactly, or at least \<open>1 / (2 * P)\<close> away
  from one, far more than the context's rounding moves it.
\<close>

lemma percentage_rounding:
  fixes N P :: int
  assumes N: "0 < N" "N < 2 * 10 ^ 10" and P: "0 < P" "P < 10 ^ 10"
    and q: "q = (of_int N :: rat) / of_int P"
  shows "round_half_even (context_round q * 100 * 100) = round_half_even (q * 100 * 100)"
    and "\<bar>round_half_even (q * 100 * 100)\<bar> < 10 ^ 28"
    and "0 < q"
proof -
  from P have P0: "(0 :: rat) < of_int P" by simp
  from N have N0: "(0 :: rat) < of_int N" by simp
  from P0 N0 show q0: "0 < q" unfolding q by simp
  from P(1) have "1 \<le> P" by simp
  then have "(1 :: rat) \<le> of_int P" by simp
  with N0 have "(of_int N :: rat) / of_int P \<le> of_int N / 1"
    by (intro divide_left_mono) simp_all
  moreover from N(2) have "(of_int N :: rat) < of_int (2 * 10 ^ 10)" by (simp only: of_int_less_iff)
  ultimately have q1: "q < 2 * 10 ^ 10" unfolding q by simp
  define y where "y = q * 100 * 100"
  define n where "n = round_half_even y"
  define y' where "y' = context_round q * 100 * 100"
  from round_half_even_bounds[of y] have b: "of_int n - 1 / 2 \<le> y" "y \<le> of_int n + 1 / 2"
    unfolding n_def by linarith+
  from q0 q1 have yb: "0 < y" "y < 2 * 10 ^ 14" unfolding y_def by simp_all
  with b have "(of_int (- 1) :: rat) < of_int n" and "(of_int n :: rat) < of_int (2 * 10 ^ 14 + 1)"
    by simp_all
  then have "- 1 < n" and "n < 2 * 10 ^ 14 + 1" by (simp_all only: of_int_less_iff)
  then show "\<bar>round_half_even (q * 100 * 100)\<bar> < 10 ^ 28"
    unfolding n_def y_def by simp
  have tie: "context_round q = q" if m: "y = of_int m / 2" for m :: int
  proof -
    from m have qm: "q = of_int m / 20000" unfolding y_def by simp
    with q0 have "(0 :: rat) < of_int m" by simp
    then have m0: "0 < m" by simp
    from m yb(2) have "(of_int m :: rat) < of_int (4 * 10 ^ 14)" by simp
    then have "m < 4 * 10 ^ 14" by (simp only: of_int_less_iff)
    then have "m < 10 ^ 27" by simp
    with m0 have "representable (of_int m / 20000)" by (rule half_step_representable)
    then show ?thesis unfolding qm by (rule context_round_exact)
  qed
  show "round_half_even (context_round q * 100 * 100) = round_half_even (q * 100 * 100)"
  proof (cases "y = of_int n - 1 / 2 \<or> y = of_int n + 1 / 2")
    case True
    then have "y = of_int (2 * n - 1) / 2 \<or> y = of_int (2 * n + 1) / 2" by (simp add: field_simps)
    then have "context_round q = q" using tie by blast
    then show ?thesis by simp
  next
    case False
    with b have s: "of_int n - 1 / 2 < y" "y < of_int n + 1 / 2" by linarith+
    have yP: "y * of_int P = 10000 * of_int N"
      using P0 unfolding y_def q by simp
    define K where "K = 20000 * N - (2 * n - 1) * P"
    define L where "L = (2 * n + 1) * P - 20000 * N"
    have Keq: "(of_int K :: rat) = 2 * (y - (of_int n - 1 / 2)) * of_int P"
      unfolding K_def using yP by (simp add: algebra_simps)
    moreover from s(1) P0 have "0 < 2 * (y - (of_int n - 1 / 2)) * of_int P" by simp
    ultimately have "(0 :: rat) < of_int K" by simp
    then have "1 \<le> K" by simp
    then have "(1 :: rat) \<le> of_int K" by simp
    with Keq have "1 \<le> 2 * (y - (of_int n - 1 / 2)) * of_int P" by simp
    with P0 have lo: "1 / (2 * of_int P) \<le> y - (of_int n - 1 / 2)"
      by (simp add: field_simps)
    have Leq: "(of_int L :: rat) = 2 * ((of_int n + 1 / 2) - y) * of_int P"
      unfolding L_def using yP by (simp add: algebra_simps)
    moreover from s(2) P0 have "0 < 2 * ((of_int n + 1 / 2) - y) * of_int P" by simp
    ultimately have "(0 :: rat) < of_int L" by simp
    then have "1 \<le> L" by simp
    then have "(1 :: rat) \<le> of_int L" by simp
    with Leq have "1 \<le> 2 * ((of_int n + 1 / 2) - y) * of_int P" by simp
    with P0 have hi: "1 / (2 * of_int P) \<le> (of_int n + 1 / 2) - y"
      by (simp add: field_simps)
    from P(2) have "(of_int P :: rat) < of_int (10 ^ 10)" by (simp only: of_int_less_iff)
    then have "2 * (of_int P :: rat) < 2 * 10 ^ 10" by simp
    with P0 have g: "1 / (2 * 10 ^ 10) < 1 / (2 * (of_int P :: rat))"
      by (intro divide_strict_left_mono) simp_all
    from context_round_error[OF q0] have "\<bar>context_round q - q\<bar> \<le> q / (2 * 10 ^ 27)" .
    also from q1 have "\<dots> \<le> 2 * 10 ^ 10 / (2 * 10 ^ 27)" by (simp add: divide_right_mono)
    finally have c: "\<bar>context_round q - q\<bar> * 10000 \<le> 2 * 10 ^ 10 / (2 * 10 ^ 27) * 10000" by simp
    have eq: "y' - y = (context_round q - q) * 10000"
      unfolding y'_def y_def by (simp add: algebra_simps)
    have "\<bar>(context_round q - q) * 10000\<bar> = \<bar>context_round q - q\<bar> * 10000"
      by (simp only: abs_mult abs_numeral)
    then have "\<bar>y' - y\<bar> = \<bar>context_round q - q\<bar> * 10000"
      unfolding eq .
    with c have e: "\<bar>y' - y\<bar> \<le> 1 / 10 ^ 13" by simp
    have "(1 :: rat) / 10 ^ 13 < 1 / (2 * 10 ^ 10)" by simp
    with e g lo hi have "of_int n - 1 / 2 < y'" and "y' < of_int n + 1 / 2" by linarith+
    then have "round_half_even y' = n" by (rule round_half_even_unique)
    then show ?thesis unfolding y'_def n_def y_def .
  qed
qed

subsection \<open>Discount percentage\<close>

lemma in_field_cents:
  assumes "in_field x"
  shows "x = of_int \<lfloor>x * 100\<rfloor> / 100" and "\<lfloor>x * 100\<rfloor> < 10 ^ 10" and "- (10 ^ 10) < \<lfloor>x * 100\<rfloor>"
proof -
  from assms have c: "of_int \<lfloor>x * 100\<rfloor> = x * 100" and b: "\<bar>x\<bar> < 10 ^ 8"
    unfolding in_field_def by blast+
  have "x = x * 100 / 100" by simp
  also have "\<dots> = of_int \<lfloor>x * 100\<rfloor> / 100" unfolding c ..
  finally show "x = of_int \<lfloor>x * 100\<rfloor> / 100" .
  from b have "x * 100 < 10 ^ 10" and "- (10 ^ 10) < x * 100" by (simp_all add: abs_less_iff)
  then have "(of_int \<lfloor>x * 100\<rfloor> :: rat) < 10 ^ 10"
    and "- (10 ^ 10) < (of_int \<lfloor>x * 100\<rfloor> :: rat)" unfolding c .
  then have "(of_int \<lfloor>x * 100\<rfloor> :: rat) < of_int (10 ^ 10)"
    and "(of_int (- (10 ^ 10)) :: rat) < of_int \<lfloor>x * 100\<rfloor>" by simp_all
  then show "\<lfloor>x * 100\<rfloor> < 10 ^ 10" and "- (10 ^ 10) < \<lfloor>x * 100\<rfloor>"
    by (simp_all only: of_int_less_iff)
qed

lemma percentage_of_quotient:
  fixes N P :: int
  assumes N: "0 < N" "N < 2 * 10 ^ 10" and P: "P \<noteq> 0" "\<bar>P\<bar> < 10 ^ 10"
    and q: "q = (of_int N :: rat) / of_int P"
  shows "decimal_round2 (decimal_mul (context_round q) 100) = Inr (round2 (q * 100))"
proof -
  define r where "r = (of_int N :: rat) / of_int \<bar>P\<bar>"
  from P have A: "0 < \<bar>P\<bar>" "\<bar>P\<bar> < 10 ^ 10" by simp_all
  note pr = percentage_rounding[OF N A r_def]
  have "representable (context_round r * 100)"
    using pr(3) by (intro representable_times_100 context_round_representable)
  then have ex: "context_round (context_round r * 100) = context_round r * 100"
    by (rule context_round_exact)
  show ?thesis
  proof (cases "0 < P")
    case True
    then have "q = r" unfolding q r_def by simp
    with pr(1,2) ex show ?thesis
      by (simp add: decimal_mul_def decimal_round2_def round2_def Let_def)
  next
    case False
    with P(1) have "P < 0" by simp
    then have qr: "q = - r" unfolding q r_def by simp
    have "context_round (context_round q * 100) = - (context_round r * 100)"
      unfolding qr context_round_minus using context_round_minus[of "context_round r * 100"] ex
      by simp
    moreover have "round_half_even (- (context_round r * 100) * 100) = - round_half_even (r * 100 * 100)"
      using round_half_even_minus[of "context_round r * 100 * 100"] pr(1) by simp
    moreover have "round_half_even (q * 100 * 100) = - round_half_even (r * 100 * 100)"
      unfolding qr using round_half_even_minus[of "r * 100 * 100"] by simp
    ultimately show ?thesis
      using pr(2) by (simp add: decimal_mul_def decimal_round2_def round2_def Let_def)
  qed
qed

lemma discount_percentage_value:
  assumes d: "d < p" "p \<noteq> 0" and f: "in_field p" "in_field d"
  shows "decimal_div (decimal_sub p d) p = Inr (context_round ((p - d) / p))"
    and "decimal_round2 (decimal_mul (context_round ((p - d) / p)) 100)
           = Inr (spec_discount_percentage p d)"
proof -
  define P where "P = \<lfloor>p * 100\<rfloor>"
  define D where "D = \<lfloor>d * 100\<rfloor>"
  note pc = in_field_cents[OF f(1), folded P_def]
  note dc = in_field_cents[OF f(2), folded D_def]
  from d(1) pc(1) dc(1) have "(of_int D :: rat) / 100 < of_int P / 100" by simp
  then have "(of_int D :: rat) < of_int P" by simp
  then have DP: "D < P" by (simp only: of_int_less_iff)
  from DP pc(2) dc(3) have N: "0 < P - D" "P - D < 2 * 10 ^ 10" by linarith+
  from d(2) pc(1) have "(of_int P :: rat) \<noteq> 0" by auto
  then have P0: "P \<noteq> 0" by simp
  from pc(2,3) have Pb: "\<bar>P\<bar> < 10 ^ 10" by linarith
  have pd: "p - d = of_int (P - D) / 100"
    using pc(1) dc(1) by (simp add: diff_divide_distrib)
  have "(2 :: int) * 10 ^ 10 < 10 ^ 28" by simp
  with N(2) have "P - D < 10 ^ 28" by linarith
  with N(1) have "representable (p - d)" unfolding pd by (rule hundredths_representable)
  then have sub: "decimal_sub p d = p - d"
    unfolding decimal_sub_def by (rule context_round_exact)
  from d(2) show "decimal_div (decimal_sub p d) p = Inr (context_round ((p - d) / p))"
    by (simp add: sub decimal_div_def)
  have q: "(p - d) / p = (of_int (P - D) :: rat) / of_int P"
    unfolding pd using pc(1) P0 by simp
  have s: "100 * (p - d) / p = (p - d) / p * 100" by simp
  from percentage_of_quotient[OF N P0 Pb q]
  show "decimal_round2 (decimal_mul (context_round ((p - d) / p)) 100)
           = Inr (spec_discount_percentage p d)"
    unfolding spec_discount_percentage_def s .
qed

lemma percentage_orders_agree:
  "(case decimal_div (decimal_sub p d) p of
      Inl e \<Rightarrow> Inl e
    | Inr q \<Rightarrow> decimal_round2 (decimal_mul q 100))
   = spec_discount_percentage_decimal p d"
proof -
  define x where "x = decimal_sub p d"
  have "context_round (100 * x) = context_round (x * 100)" by (simp add: mult.commute)
  also have "\<dots> = context_round x * 100" by (rule context_round_times_100)
  also have "context_round x = x" unfolding x_def decimal_sub_def by (rule context_round_idem)
  finally have m: "decimal_mul 100 x = x * 100" unfolding decimal_mul_def .
  show ?thesis
  proof (cases "p = 0")
    case True
    show ?thesis
      unfolding spec_discount_percentage_decimal_def x_def[symmetric] m
      by (simp add: decimal_div_def True)
  next
    case False
    have "x * 100 / p = x / p * 100" by simp
    then have "context_round (x * 100 / p) = context_round (x / p * 100)" by (rule arg_cong)
    also have "\<dots> = context_round (x / p) * 100" by (rule context_round_times_100)
    finally have a: "context_round (x * 100 / p) = context_round (x / p) * 100" .
    have "context_round (context_round (x / p) * 100)
            = context_round (context_round (x / p)) * 100"
      by (rule context_round_times_100)
    also have "\<dots> = context_round (x / p) * 100" unfolding context_round_idem ..
    finally have b: "decimal_mul (context_round (x / p)) 100 = context_round (x / p) * 100"
      unfolding decimal_mul_def .
    have l: "decimal_div x p = Inr (context_round (x / p))"
      unfolding decimal_div_def using False by simp
    have r: "decimal_div (x * 100) p = Inr (context_round (x / p) * 100)"
      unfolding decimal_div_def a[symmetric] using False by simp
    show ?thesis
      unfolding spec_discount_percentage_decimal_def x_def[symmetric] m l r
      by (simp add: b)
  qed
qed

lemma discount_percentage_decimal:
  assumes "discount_price p = Some d" and "d < price p"
  shows "discount_percentage p = spec_discount_percentage_decimal (price p) d"
proof -
  from assms have "has_discount p" by (simp add: has_discount_def)
  with assms(1) have "discount_percentage p
      = (case decimal_div (decimal_sub (price p) d) (price p) of
           Inl e \<Rightarrow> Inl e
         | Inr q \<Rightarrow> decimal_round2 (decimal_mul q 100))"
    by (simp add: discount_percentage_def)
  then show ?thesis unfolding percentage_orders_agree .
qed

lemma discount_percentage_zero_price:
  assumes "price p = 0"
  shows "discount_percentage p
           = (case discount_price p of
                None \<Rightarrow> Inr 0
              | Some d \<Rightarrow> if d < 0 then Inl DivisionByZero else Inr 0)"
proof (cases "discount_price p")
  case None
  then show ?thesis by (simp add: discount_percentage_def has_discount_def)
next
  case (Some d)
  show ?thesis
  proof (cases "d < 0")
    case True
    then have "context_round (- d) \<noteq> 0" by (simp add: context_round_eq_0)
    with True Some assms show ?thesis
      by (simp add: discount_percentage_def has_discount_def decimal_sub_def decimal_div_def)
  next
    case False
    with Some assms show ?thesis by (simp add: discount_percentage_def has_discount_def)
  qed
qed

text \<open>
  C2. For every product, \<open>has_discount\<close> holds exactly when the discount price is set
  and strictly less than the price; \<open>discount_percentage\<close> is 0 whenever the discount
  price is absent or at least the price; and otherwise it is what
  \<open>round(100 * (price - discount_price) / price, 2)\<close> evaluates to on \<open>Decimal\<close>s
  (a price of 0 raising in both). For prices that the fields hold (cents of at most ten
  digits) and a price other than 0, that is the exact quotient rounded to two places:
  the rounding of the \<open>Decimal\<close> operations to 28 digits never changes the result.
\<close>

theorem discount_percentage_spec:
  "has_discount p = (\<exists>d. discount_price p = Some d \<and> d < price p)
   \<and> (discount_price p = None \<or> (\<exists>d. discount_price p = Some d \<and> price p \<le> d)
         \<longrightarrow> discount_percentage p = Inr 0)
   \<and> (\<forall>d. discount_price p = Some d \<and> d < price p
         \<longrightarrow> discount_percentage p = spec_discount_percentage_decimal (price p) d)
   \<and> (\<forall>d. discount_price p = Some d \<and> d < price p \<and> price p \<noteq> 0
            \<and> in_field (price p) \<and> in_field d
         \<longrightarrow> discount_percentage p = Inr (spec_discount_percentage (price p) d))"
proof (intro conjI allI impI)
  show "has_discount p = (\<exists>d. discount_price p = Some d \<and> d < price p)"
    by (cases "discount_price p") (simp_all add: has_discount_def)
next
  assume "discount_price p = None \<or> (\<exists>d. discount_price p = Some d \<and> price p \<le> d)"
  then have "\<not> has_discount p"
    by (cases "discount_price p") (auto simp: has_discount_def)
  then show "discount_percentage p = Inr 0" by (simp add: discount_percentage_def)
next
  fix d
  assume "discount_price p = Some d \<and> d < price p"
  then have "discount_price p = Some d" and "d < price p" by simp_all
  then show "discount_percentage p = spec_discount_percentage_decimal (price p) d"
    by (rule discount_percentage_decimal)
next
  fix d
  assume a: "discount_price p = Some d \<and> d < price p \<and> price p \<noteq> 0
            \<and> in_field (price p) \<and> in_field d"
  then have e: "discount_price p = Some d" by simp
  from a e have h: "has_discount p" by (simp add: has_discount_def)
  from a have dp: "d < price p" "price p \<noteq> 0" and f: "in_field (price p)" "in_field d"
    by simp_all
  from h e show "discount_percentage p = Inr (spec_discount_percentage (price p) d)"
    by (simp add: discount_percentage_def discount_percentage_value[OF dp f])
qed

theorem discount_percentage_spec_witness:
  "has_discount \<lparr>price = 100, discount_price = Some 75, stock = 3\<rparr>
   \<and> discount_percentage \<lparr>price = 100, discount_price = Some 75, stock = 3\<rparr> = Inr 25
   \<and> spec_discount_percentage_decimal 100 75 = Inr 25
   \<and> discount_percentage \<lparr>price = 3, discount_price = Some 1, stock = 3\<rparr> = Inr (6667 / 100)
   \<and> spec_discount_percentage_decimal 3 1 = Inr (6667 / 100)
   \<and> discount_percentage \<lparr>price = 100, discount_price = Some 100, stock = 3\<rparr> = Inr 0
   \<and> discount_percentage \<lparr>price = 100, discount_price = None, stock = 3\<rparr> = Inr 0"
proof -
  let ?a = "\<lparr>price = 100, discount_price = Some 75, stock = 3\<rparr>"
  let ?b = "\<lparr>price = 3, discount_price = Some 1, stock = 3\<rparr>"
  let ?c = "\<lparr>price = 100, discount_price = Some 100, stock = 3\<rparr>"
  let ?e = "\<lparr>price = 100, discount_price = None, stock = 3\<rparr>"
  have ha: "discount_price ?a = Some 75 \<and> (75 :: rat) < price ?a \<and> price ?a \<noteq> 0
              \<and> in_field (price ?a) \<and> in_field 75"
    by (simp add: in_field_def)
  have hb: "discount_price ?b = Some 1 \<and> (1 :: rat) < price ?b \<and> price ?b \<noteq> 0
              \<and> in_field (price ?b) \<and> in_field 1"
    by (simp add: in_field_def)
  have "round_half_even (100 * (100 - 75) / 100 * 100) = 2500"
    by (rule round_half_even_unique) simp_all
  then have sa: "spec_discount_percentage 100 75 = 25"
    by (simp add: spec_discount_percentage_def round2_def)
  have "round_half_even (100 * (3 - 1) / 3 * 100) = 6667"
    by (rule round_half_even_unique) simp_all
  then have sb: "spec_discount_percentage 3 1 = 6667 / 100"
    by (simp add: spec_discount_percentage_def round2_def)
  from discount_percentage_spec[of ?a] ha sa
  have 1: "has_discount ?a \<and> discount_percentage ?a = Inr 25
           \<and> spec_discount_percentage_decimal 100 75 = Inr 25" by auto
  from discount_percentage_spec[of ?b] hb sb
  have 2: "discount_percentage ?b = Inr (6667 / 100)
           \<and> spec_discount_percentage_decimal 3 1 = Inr (6667 / 100)" by auto
  from discount_percentage_spec[of ?c]
  have 3: "discount_percentage ?c = Inr 0" by simp
  from discount_percentage_spec[of ?e]
  have 4: "discount_percentage ?e = Inr 0" by simp
  from 1 2 3 4 show ?thesis by blast
qed

subsection \<open>A price of zero\<close>

text \<open>
  C3. There is a product with base price 0 and a discount price set on which
  \<open>discount_percentage\<close> divides by zero: the code has no guard of its own for a price
  of 0. At a price of 0 the division is reached exactly when the discount price is set
  and negative, the only values that pass \<open>has_discount\<close> there; \<open>save\<close> runs no
  validator, so such a product can be stored. On a product that satisfies the field
  validators the result at a price of 0 is 0.
\<close>

theorem zero_price_division_by_zero:
  "(\<exists>p. price p = 0 \<and> discount_price p \<noteq> None
         \<and> discount_percentage p = Inl DivisionByZero)
   \<and> (price p = 0 \<longrightarrow>
         (discount_percentage p = Inl DivisionByZero)
           = (\<exists>d. discount_price p = Some d \<and> d < 0))
   \<and> (price p = 0 \<and> validated p \<longrightarrow> discount_percentage p = Inr 0)"
proof (intro conjI impI)
  let ?p = "\<lparr>price = 0, discount_price = Some (- 1), stock = 0\<rparr>"
  have "discount_percentage ?p = Inl DivisionByZero"
    using discount_percentage_zero_price[of ?p] by simp
  then have "price ?p = 0 \<and> discount_price ?p \<noteq> None
               \<and> discount_percentage ?p = Inl DivisionByZero" by simp
  then show "\<exists>p. price p = 0 \<and> discount_price p \<noteq> None
               \<and> discount_percentage p = Inl DivisionByZero" ..
next
  assume "price p = 0"
  then show "(discount_percentage p = Inl DivisionByZero)
               = (\<exists>d. discount_price p = Some d \<and> d < 0)"
    by (cases "discount_price p") (simp_all add: discount_percentage_zero_price)
next
  assume "price p = 0 \<and> validated p"
  then show "discount_percentage p = Inr 0"
    by (cases "discount_price p") (simp_all add: discount_percentage_zero_price validated_def)
qed

theorem zero_price_division_by_zero_witness:
  "discount_percentage \<lparr>price = 0, discount_price = Some (- 1), stock = 0\<rparr>
     = Inl DivisionByZero
   \<and> discount_percentage \<lparr>price = 0, discount_price = Some 0, stock = 0\<rparr> = Inr 0"
proof -
  let ?p = "\<lparr>price = 0, discount_price = Some (- 1), stock = 0\<rparr>"
  let ?q = "\<lparr>price = 0, discount_price = Some 0, stock = 0\<rparr>"
  from zero_price_division_by_zero[of ?p]
  have 1: "discount_percentage ?p = Inl DivisionByZero" by simp
  from zero_price_division_by_zero[of ?q]
  have 2: "discount_percentage ?q = Inr 0" by (simp add: validated_def)
  from 1 2 show ?thesis by blast
qed

end
